theory Spec2Isabelle
  imports Main "HOL-Library.Word" "HOL-Library.Multiset"
begin

section \<open>The IR the pass works on\<close>

text \<open>
  The pass of \<^verbatim>\<open>p3.cpp\<close> moves instructions between the basic blocks of a function.
  An \<^verbatim>\<open>Instruction*\<close> is modelled by a record that carries the pointer itself
  (\<open>addr\<close>, which is also the order of the \<^verbatim>\<open>std::set<Instruction*>\<close> worklist), the
  kind of the instruction with its operands, the answers of the LLVM queries the pass
  asks about it, and the metadata attached to it. A \<^verbatim>\<open>Value*\<close> is a constant, an argument, a global variable, a block
  label or the result of an instruction.
\<close>

type_synonym iid = nat
type_synonym bid = nat

datatype val =
    Constant int
  | Argument nat
  | GlobalVariable string
  | Label bid
  | Result iid

text \<open>
  A load has one operand (operand 0, the address), a store has two (operand 0 the value,
  operand 1 the address), an atomicrmw has two (operand 0 the address, operand 1 the
  value): the classes \<^verbatim>\<open>LoadInst\<close>, \<^verbatim>\<open>StoreInst\<close> and \<^verbatim>\<open>AtomicRMWInst\<close> fix that, and
  the datatype does. \<open>TermInst\<close> stands for every terminator (br, ret, switch, ...),
  \<open>OtherInst\<close> for every other instruction (arithmetic, compare, cast, getelementptr,
  phi, ...).
\<close>

datatype kind =
    LoadInst val
  | StoreInst val val
  | CallInst "val list"
  | AllocaInst val
  | AtomicRMWInst val val
  | TermInst "val list"
  | OtherInst "val list"

record inst =
  addr :: iid
  kind :: kind
  isVolatile :: bool
  speculatable :: bool
  mayReadFromMemory :: bool
  isEHPad :: bool
  metadata :: "(string \<times> nat) list"

text \<open>
  \<open>metadata\<close> lists the attachments of the instruction by kind (\<^verbatim>\<open>!tbaa\<close>, \<^verbatim>\<open>!range\<close>,
  ...) other than the debug location, which LLVM keeps in a field of its own.
\<close>

fun kindOperands :: "kind \<Rightarrow> val list" where
  "kindOperands (LoadInst a) = [a]"
| "kindOperands (StoreInst v a) = [v, a]"
| "kindOperands (CallInst vs) = vs"
| "kindOperands (AllocaInst n) = [n]"
| "kindOperands (AtomicRMWInst p v) = [p, v]"
| "kindOperands (TermInst vs) = vs"
| "kindOperands (OtherInst vs) = vs"

definition operands :: "inst \<Rightarrow> val list" where
  "operands I = kindOperands (kind I)"

fun isaLoadInst :: "inst \<Rightarrow> bool" where
  "isaLoadInst I = (case kind I of LoadInst a \<Rightarrow> True | _ \<Rightarrow> False)"

fun isaStoreInst :: "inst \<Rightarrow> bool" where
  "isaStoreInst I = (case kind I of StoreInst v a \<Rightarrow> True | _ \<Rightarrow> False)"

fun isaCallInst :: "inst \<Rightarrow> bool" where
  "isaCallInst I = (case kind I of CallInst vs \<Rightarrow> True | _ \<Rightarrow> False)"

fun isTerminator :: "inst \<Rightarrow> bool" where
  "isTerminator I = (case kind I of TermInst vs \<Rightarrow> True | _ \<Rightarrow> False)"

text \<open>
  \<^verbatim>\<open>llvm::isSafeToSpeculativelyExecute\<close> (LLVM 13, ValueTracking.cpp) answers false for
  every terminator, alloca, store, atomicrmw and phi whatever their operands; for a call it asks the
  callee's \<^verbatim>\<open>speculatable\<close> attribute and for a division whether the divisor is a
  non-zero constant. The field \<open>speculatable\<close> holds that answer for calls and for the
  other instructions; the opcodes LLVM always refuses are refused here.
\<close>

fun isSafeToSpeculativelyExecute :: "inst \<Rightarrow> bool" where
  "isSafeToSpeculativelyExecute I =
     (case kind I of
        CallInst vs \<Rightarrow> speculatable I
      | OtherInst vs \<Rightarrow> speculatable I
      | LoadInst a \<Rightarrow> speculatable I
      | StoreInst v a \<Rightarrow> False
      | AllocaInst n \<Rightarrow> False
      | AtomicRMWInst p v \<Rightarrow> False
      | TermInst vs \<Rightarrow> False)"

text \<open>
  A function is the list of its basic blocks, each the ordered list of the instructions it
  owns. A loop is what \<^verbatim>\<open>LoopInfo\<close> hands to the pass: its preheader (or none), its
  blocks in the order of \<^verbatim>\<open>L->blocks()\<close>, and its sub-loops. The pass never changes the
  control flow, so the loop forest of a function is the same before and after a run.
\<close>

type_synonym func = "(bid \<times> inst list) list"

datatype loop = Loop (getLoopPreheader: "bid option") (loopBlocks: "bid list") (getSubLoops: "loop list")

definition instsOf :: "func \<Rightarrow> bid \<Rightarrow> inst list" where
  "instsOf f b = (case map_of f b of None \<Rightarrow> [] | Some is \<Rightarrow> is)"

definition allInsts :: "func \<Rightarrow> inst list" where
  "allInsts f = concat (map snd f)"

fun getParent :: "func \<Rightarrow> iid \<Rightarrow> bid option" where
  "getParent [] a = None"
| "getParent ((b, is) # f) a = (if a \<in> set (map addr is) then Some b else getParent f a)"

definition instAt :: "func \<Rightarrow> iid \<Rightarrow> inst option" where
  "instAt f a = find (\<lambda>i. addr i = a) (allInsts f)"

fun isaAllocaInst :: "func \<Rightarrow> val \<Rightarrow> bool" where
  "isaAllocaInst f (Result j) =
     (case instAt f j of
        None \<Rightarrow> False
      | Some i \<Rightarrow> (case kind i of AllocaInst n \<Rightarrow> True | _ \<Rightarrow> False))"
| "isaAllocaInst f v = False"

fun isaGlobalVariable :: "val \<Rightarrow> bool" where
  "isaGlobalVariable (GlobalVariable g) = True"
| "isaGlobalVariable v = False"

text \<open>
  \<^verbatim>\<open>BasicBlock::getTerminator\<close>: the last instruction of the block when it is a
  terminator, and a null pointer otherwise.
\<close>

definition getTerminator :: "func \<Rightarrow> bid \<Rightarrow> inst option" where
  "getTerminator f b =
     (let is = instsOf f b in
      if is = [] \<or> \<not> isTerminator (last is) then None else Some (last is))"

text \<open>
  \<^verbatim>\<open>Loop::contains(Instruction*)\<close> asks whether the instruction's parent block is a
  block of the loop; \<^verbatim>\<open>Loop::isLoopInvariant(Value*)\<close> is true of every value that is
  not an instruction, and of an instruction that the loop does not contain.
\<close>

definition contains :: "loop \<Rightarrow> func \<Rightarrow> iid \<Rightarrow> bool" where
  "contains L f a =
     (case getParent f a of None \<Rightarrow> False | Some b \<Rightarrow> b \<in> set (loopBlocks L))"

fun isLoopInvariant :: "loop \<Rightarrow> func \<Rightarrow> val \<Rightarrow> bool" where
  "isLoopInvariant L f (Result a) = (\<not> contains L f a)"
| "isLoopInvariant L f v = True"

text \<open>
  \<^verbatim>\<open>Instruction::moveBefore\<close> unlinks the instruction from the block that owns it and
  links it in front of the destination instruction.
\<close>

definition unlink :: "inst \<Rightarrow> func \<Rightarrow> func" where
  "unlink I f = map (\<lambda>(b, is). (b, removeAll I is)) f"

fun insertBefore :: "inst \<Rightarrow> inst \<Rightarrow> inst list \<Rightarrow> inst list" where
  "insertBefore I dst [] = []"
| "insertBefore I dst (j # js) =
     (if j = dst then I # j # insertBefore I dst js else j # insertBefore I dst js)"

definition linkBefore :: "inst \<Rightarrow> inst \<Rightarrow> func \<Rightarrow> func" where
  "linkBefore I dst f = map (\<lambda>(b, is). (b, insertBefore I dst is)) f"

definition moveBefore :: "inst \<Rightarrow> inst \<Rightarrow> func \<Rightarrow> func" where
  "moveBefore I dst f = linkBefore I dst (unlink I f)"

text \<open>
  \<^verbatim>\<open>Instruction::dropUnknownNonDebugMetadata()\<close>, called with no known kind, clears the
  metadata of the instruction and keeps its debug location (LLVM 13, Metadata.cpp). The
  instruction is an object of the function, so the call is a change of the function: the
  record of the instruction is replaced where it stands.
\<close>

definition clearMetadata :: "inst \<Rightarrow> inst" where
  "clearMetadata I = I\<lparr>metadata := []\<rparr>"

definition dropUnknownNonDebugMetadata :: "inst \<Rightarrow> func \<Rightarrow> func" where
  "dropUnknownNonDebugMetadata I f =
     map (\<lambda>(b, is). (b, map (\<lambda>j. if j = I then clearMetadata j else j) is)) f"

section \<open>The counters\<close>

text \<open>
  The \<^verbatim>\<open>llvm::Statistic\<close> counters of the pass; in LLVM 13 each is an unsigned 32-bit
  atomic, incremented by \<^verbatim>\<open>++\<close> and decremented by \<^verbatim>\<open>--\<close>.
\<close>

record stats =
  NumLoops :: "32 word"
  LICMBasic :: "32 word"
  LICMLoadHoist :: "32 word"
  LICMNoPreheader :: "32 word"
  NumLoopsNoStore :: "32 word"
  NumLoopsNoLoad :: "32 word"
  NumLoopsNoStoreWithLoad :: "32 word"
  NumLoopsWithCall :: "32 word"

text \<open>
  What ends a run early. \<open>NullTerminator\<close>: the preheader has no terminator, so
  \<^verbatim>\<open>getTerminator\<close> is null and \<^verbatim>\<open>moveBefore\<close> dereferences it. \<open>VariantOperand\<close>:
  \<^verbatim>\<open>Loop::makeLoopInvariant\<close> was asked to hoist an instruction with an operand inside
  the loop, where LLVM would first try to hoist the operand; the pass never asks that
  (it calls \<^verbatim>\<open>AreAllOperandsLoopInvaraint\<close> first), and the model stops there.
\<close>

datatype error = NullTerminator | VariantOperand

section \<open>The functions of the pass\<close>

text \<open>
  The state the pass threads through its loops: the function being rewritten, the
  counters, and a record of the relocations made so far. The source keeps no such
  record; the model adds one entry at each call of \<^verbatim>\<open>moveBefore\<close> (the instruction, the
  loop it is hoisted out of, and the placement just before the move) and never reads
  it, so that theorems can speak of the relocations of a run.
\<close>

record relocation =
  moved :: inst
  outOf :: loop
  placement :: func

type_synonym pstate = "func \<times> stats \<times> relocation list"

definition hoistInstructionToPreheader :: "inst \<Rightarrow> bid \<Rightarrow> func \<Rightarrow> error + func" where
  "hoistInstructionToPreheader I PreHeader f =
     (case getTerminator f PreHeader of
        None \<Rightarrow> Inl NullTerminator
      | Some dst \<Rightarrow> Inr (moveBefore I dst f))"

definition AreAllOperandsLoopInvaraint :: "loop \<Rightarrow> func \<Rightarrow> inst \<Rightarrow> bool" where
  "AreAllOperandsLoopInvaraint L f I = list_all (isLoopInvariant L f) (operands I)"

text \<open>
  The two nested loops of \<^verbatim>\<open>NoPossibleStoresToAddressInLoop\<close> visit every instruction
  of every block of the loop, in order; \<open>noStoreAmong\<close> is that visit, with the two
  early returns.
\<close>

fun noStoreAmong :: "func \<Rightarrow> val \<Rightarrow> inst list \<Rightarrow> bool" where
  "noStoreAmong f LoadAddress [] = True"
| "noStoreAmong f LoadAddress (i # is) =
     (case kind i of
        StoreInst v addr_of_store \<Rightarrow>
          if LoadAddress = addr_of_store then False
          else if \<not> isaAllocaInst f addr_of_store \<and> \<not> isaGlobalVariable addr_of_store then False
          else noStoreAmong f LoadAddress is
      | _ \<Rightarrow> noStoreAmong f LoadAddress is)"

definition loopInsts :: "loop \<Rightarrow> func \<Rightarrow> inst list" where
  "loopInsts L f = concat (map (instsOf f) (loopBlocks L))"

definition NoPossibleStoresToAddressInLoop :: "loop \<Rightarrow> func \<Rightarrow> val \<Rightarrow> bool" where
  "NoPossibleStoresToAddressInLoop L f LoadAddress = noStoreAmong f LoadAddress (loopInsts L f)"

text \<open>
  \<^verbatim>\<open>CanMoveOutofLoop\<close>; its parameters \<^verbatim>\<open>F\<close> and \<^verbatim>\<open>loopHasStore\<close> are never read
  (the cases that read them are commented out in the source) and are left out.
\<close>

definition CanMoveOutofLoop :: "loop \<Rightarrow> func \<Rightarrow> inst \<Rightarrow> val \<Rightarrow> bool" where
  "CanMoveOutofLoop L f I LoadAddress =
     (if isVolatile I then False
      else if isaGlobalVariable LoadAddress \<and> NoPossibleStoresToAddressInLoop L f LoadAddress
      then True
      else False)"

definition updateStats :: "bool \<Rightarrow> bool \<Rightarrow> bool \<Rightarrow> stats \<Rightarrow> stats" where
  "updateStats hasLoad hasStore hasCall st =
     (if \<not> hasStore \<and> hasLoad then st\<lparr>NumLoopsNoStoreWithLoad := NumLoopsNoStoreWithLoad st + 1\<rparr>
      else if \<not> hasLoad then st\<lparr>NumLoopsNoLoad := NumLoopsNoLoad st + 1\<rparr>
      else if \<not> hasStore then st\<lparr>NumLoopsNoStore := NumLoopsNoStore st + 1\<rparr>
      else if hasCall then st\<lparr>NumLoopsWithCall := NumLoopsWithCall st + 1 + 1\<rparr>
      else st)"

definition NotALoadOrStore :: "inst \<Rightarrow> bool" where
  "NotALoadOrStore I = (if isaLoadInst I then False else if isaStoreInst I then False else True)"

text \<open>
  \<^verbatim>\<open>Loop::makeLoopInvariant(Instruction*, bool &Changed)\<close> of LLVM 13 (LoopInfo.cpp),
  with no insertion point given: an instruction outside the loop is left alone; one that
  is not safe to speculate, may read memory or is an exception-handling pad is refused;
  without a preheader nothing is hoisted; otherwise the insertion point is the
  preheader's terminator, every operand must be (made) invariant, the instruction is
  moved there, its metadata is dropped (it may depend on a condition the instruction is
  hoisted above) and \<open>Changed\<close> is set. The result is the function and \<open>Changed\<close>.
\<close>

definition makeLoopInvariant :: "loop \<Rightarrow> inst \<Rightarrow> func \<Rightarrow> error + (func \<times> bool)" where
  "makeLoopInvariant L I f =
     (if isLoopInvariant L f (Result (addr I)) then Inr (f, False)
      else if \<not> isSafeToSpeculativelyExecute I then Inr (f, False)
      else if mayReadFromMemory I then Inr (f, False)
      else if isEHPad I then Inr (f, False)
      else case getLoopPreheader L of
        None \<Rightarrow> Inr (f, False)
      | Some Preheader \<Rightarrow>
          if \<not> list_all (isLoopInvariant L f) (operands I) then Inl VariantOperand
          else case getTerminator f Preheader of
            None \<Rightarrow> Inl NullTerminator
          | Some InsertPt \<Rightarrow>
              Inr (dropUnknownNonDebugMetadata I (moveBefore I InsertPt f), True))"

text \<open>
  One turn of the \<^verbatim>\<open>while (worklist.size() > 0)\<close> loop of \<^verbatim>\<open>OptimizeLoop2\<close>, for the
  instruction \<open>i\<close> just taken from the worklist.
\<close>

definition visitInst :: "loop \<Rightarrow> bid \<Rightarrow> inst \<Rightarrow> pstate \<Rightarrow> error + pstate" where
  "visitInst L PH i s =
     (case s of (f, st, lg) \<Rightarrow>
        if NotALoadOrStore i then
          (if AreAllOperandsLoopInvaraint L f i then
             (case makeLoopInvariant L i f of
                Inl e \<Rightarrow> Inl e
              | Inr (f', changed) \<Rightarrow>
                  if changed then
                    Inr (f', st\<lparr>LICMBasic := LICMBasic st + 1\<rparr>,
                         lg @ [\<lparr>moved = i, outOf = L, placement = f\<rparr>])
                  else Inr (f', st, lg))
           else Inr (f, st, lg))
        else if isaLoadInst i then
          (case kind i of
             LoadInst a \<Rightarrow>
               if CanMoveOutofLoop L f i a then
                 (case hoistInstructionToPreheader i PH f of
                    Inl e \<Rightarrow> Inl e
                  | Inr f' \<Rightarrow>
                      Inr (f', st\<lparr>LICMLoadHoist := LICMLoadHoist st + 1\<rparr>,
                           lg @ [\<lparr>moved = i, outOf = L, placement = f\<rparr>]))
               else Inr (f, st, lg)
           | _ \<Rightarrow> Inr (f, st, lg))
        else Inr (f, st, lg))"

text \<open>
  The worklist is a \<^verbatim>\<open>std::set<Instruction*>\<close>: \<^verbatim>\<open>*worklist.begin()\<close> is the
  instruction at the lowest address, so the instructions of a block are visited in the
  order of their addresses.
\<close>

fun drainWorklist :: "loop \<Rightarrow> bid \<Rightarrow> inst list \<Rightarrow> pstate \<Rightarrow> error + pstate" where
  "drainWorklist L PH [] s = Inr s"
| "drainWorklist L PH (i # worklist) s =
     (case visitInst L PH i s of
        Inl e \<Rightarrow> Inl e
      | Inr s' \<Rightarrow> drainWorklist L PH worklist s')"

text \<open>
  The \<^verbatim>\<open>for (BasicBlock *bb: L->blocks())\<close> loop: the block is scanned for loads, stores
  and calls while its instructions enter the worklist, the block counters are updated,
  and the worklist is drained.
\<close>

fun forBlocks :: "loop \<Rightarrow> bid \<Rightarrow> bid list \<Rightarrow> pstate \<Rightarrow> error + pstate" where
  "forBlocks L PH [] s = Inr s"
| "forBlocks L PH (bb # bbs) s =
     (case s of (f, st, lg) \<Rightarrow>
        let is = instsOf f bb;
            hasLoad = list_ex isaLoadInst is;
            hasStore = list_ex isaStoreInst is;
            hasCall = list_ex isaCallInst is;
            worklist = sort_key addr is
        in case drainWorklist L PH worklist (f, updateStats hasLoad hasStore hasCall st, lg) of
             Inl e \<Rightarrow> Inl e
           | Inr s' \<Rightarrow> forBlocks L PH bbs s')"

text \<open>
  \<^verbatim>\<open>OptimizeLoop2\<close>: count the loop; without a preheader count that and return;
  otherwise run on the sub-loops, then on the blocks of the loop. \<open>OptimizeSubLoops\<close> is
  the \<^verbatim>\<open>for (auto subloop: L->getSubLoops())\<close> loop.
\<close>

fun OptimizeLoop2 :: "loop \<Rightarrow> pstate \<Rightarrow> error + pstate"
  and OptimizeSubLoops :: "loop list \<Rightarrow> pstate \<Rightarrow> error + pstate" where
  "OptimizeLoop2 (Loop preheader bbs subloops) s =
     (case s of (f, st, lg) \<Rightarrow>
        let st1 = st\<lparr>NumLoops := NumLoops st + 1\<rparr> in
        case preheader of
          None \<Rightarrow> Inr (f, st1\<lparr>LICMNoPreheader := LICMNoPreheader st1 + 1\<rparr>, lg)
        | Some PH \<Rightarrow>
            (case OptimizeSubLoops subloops (f, st1, lg) of
               Inl e \<Rightarrow> Inl e
             | Inr s' \<Rightarrow> forBlocks (Loop preheader bbs subloops) PH bbs s'))"
| "OptimizeSubLoops [] s = Inr s"
| "OptimizeSubLoops (subloop # rest) s =
     (case OptimizeLoop2 subloop s of
        Inl e \<Rightarrow> Inl e
      | Inr s' \<Rightarrow> OptimizeSubLoops rest s')"

text \<open>
  A module is the list of its functions, each with the loop forest \<^verbatim>\<open>LoopInfo\<close> computes
  for it. \<^verbatim>\<open>RunLICMBasic\<close> skips a function with no block and runs \<^verbatim>\<open>OptimizeLoop2\<close>
  on every top-level loop of the others.
\<close>

type_synonym module = "(func \<times> loop list) list"

fun RunLICMBasic :: "module \<Rightarrow> stats \<times> relocation list \<Rightarrow> error + (module \<times> stats \<times> relocation list)" where
  "RunLICMBasic [] s = Inr ([], s)"
| "RunLICMBasic ((F, LI) # M) s =
     (if F = [] then
        (case RunLICMBasic M s of
           Inl e \<Rightarrow> Inl e
         | Inr (M', s') \<Rightarrow> Inr ((F, LI) # M', s'))
      else
        (case OptimizeSubLoops LI (F, s) of
           Inl e \<Rightarrow> Inl e
         | Inr (F', s1) \<Rightarrow>
             (case RunLICMBasic M s1 of
                Inl e \<Rightarrow> Inl e
              | Inr (M', s') \<Rightarrow> Inr ((F', LI) # M', s'))))"

text \<open>
  \<^verbatim>\<open>LoopInvariantCodeMotion\<close>: the counter of hoisted loads is incremented and
  decremented, then the pass runs. The record of relocations starts empty.
\<close>

definition LoopInvariantCodeMotion :: "module \<Rightarrow> stats \<Rightarrow> error + (module \<times> stats \<times> relocation list)" where
  "LoopInvariantCodeMotion M st =
     (let st1 = st\<lparr>LICMLoadHoist := LICMLoadHoist st + 1\<rparr>;
          st2 = st1\<lparr>LICMLoadHoist := LICMLoadHoist st1 - 1\<rparr>
      in RunLICMBasic M (st2, []))"


section \<open>Notions the statements use\<close>

text \<open>
  The instructions the pass can relocate at all: a load that is not volatile and reads a
  global variable, and an instruction other than a load or a store that
  \<^verbatim>\<open>makeLoopInvariant\<close> accepts. Everything else stays where it is.
\<close>

definition hoistable :: "inst \<Rightarrow> bool" where
  "hoistable I =
     (case kind I of
        LoadInst a \<Rightarrow> \<not> isVolatile I \<and> isaGlobalVariable a
      | StoreInst v a \<Rightarrow> False
      | _ \<Rightarrow> isSafeToSpeculativelyExecute I \<and> \<not> mayReadFromMemory I \<and> \<not> isEHPad I)"

text \<open>
  \<open>alike i i'\<close>: the two records describe the same instruction up to its metadata.
  \<open>relink i' i dst f\<close> is the function \<open>f\<close> with the instruction \<open>i\<close> taken out of
  its block and \<open>i'\<close> put in front of \<open>dst\<close>: a relocation by \<^verbatim>\<open>moveBefore\<close> alone when
  \<open>i'\<close> is \<open>i\<close>, and one by \<^verbatim>\<open>makeLoopInvariant\<close> when \<open>i'\<close> is \<open>i\<close> without its metadata.
\<close>

definition alike :: "inst \<Rightarrow> inst \<Rightarrow> bool" where
  "alike i i' = (clearMetadata i' = clearMetadata i)"

definition relink :: "inst \<Rightarrow> inst \<Rightarrow> inst \<Rightarrow> func \<Rightarrow> func" where
  "relink i' i dst f = linkBefore i' dst (unlink i f)"

definition onlyInsts :: "(inst \<Rightarrow> bool) \<Rightarrow> func \<Rightarrow> func" where
  "onlyInsts P f = map (\<lambda>(b, ins). (b, filter P ins)) f"

definition volatileLoad :: "inst \<Rightarrow> bool" where
  "volatileLoad I = (isaLoadInst I \<and> isVolatile I)"

definition nonGlobalLoad :: "inst \<Rightarrow> bool" where
  "nonGlobalLoad I = (case kind I of LoadInst a \<Rightarrow> \<not> isaGlobalVariable a | _ \<Rightarrow> False)"

definition storesTo :: "val \<Rightarrow> inst \<Rightarrow> bool" where
  "storesTo a I = (case kind I of StoreInst v d \<Rightarrow> d = a | _ \<Rightarrow> False)"

text \<open>
  \<open>writesTo a I\<close>: the instruction writes the memory at the address \<open>a\<close>, as a store to
  \<open>a\<close> and an atomicrmw on \<open>a\<close> do.
\<close>

definition writesTo :: "val \<Rightarrow> inst \<Rightarrow> bool" where
  "writesTo a I =
     (case kind I of StoreInst v d \<Rightarrow> d = a | AtomicRMWInst p v \<Rightarrow> p = a | _ \<Rightarrow> False)"

definition soundRelocation :: "relocation \<Rightarrow> bool" where
  "soundRelocation r =
     (AreAllOperandsLoopInvaraint (outOf r) (placement r) (moved r) \<and>
      (case kind (moved r) of
         LoadInst a \<Rightarrow>
           (isaGlobalVariable a \<and> \<not> list_ex (storesTo a) (loopInsts (outOf r) (placement r)))
           \<or> \<not> list_ex isaStoreInst (loopInsts (outOf r) (placement r))
       | _ \<Rightarrow> True))"

definition loadsRelocated :: "relocation list \<Rightarrow> nat" where
  "loadsRelocated lg = length (filter (\<lambda>r. isaLoadInst (moved r)) lg)"

definition blocksLoad :: "func \<Rightarrow> val \<Rightarrow> inst \<Rightarrow> bool" where
  "blocksLoad f a s =
     (case kind s of
        StoreInst v d \<Rightarrow> d = a \<or> (\<not> isaAllocaInst f d \<and> \<not> isaGlobalVariable d)
      | _ \<Rightarrow> False)"

definition basicRelocated :: "relocation list \<Rightarrow> nat" where
  "basicRelocated lg = length (filter (\<lambda>r. \<not> isaLoadInst (moved r)) lg)"

definition counted :: "stats \<Rightarrow> stats \<Rightarrow> relocation list \<Rightarrow> bool" where
  "counted st0 st lg =
     (LICMLoadHoist st = LICMLoadHoist st0 + of_nat (loadsRelocated lg) \<and>
      LICMBasic st = LICMBasic st0 + of_nat (basicRelocated lg))"

text \<open>
  \<open>sameInsts F F'\<close>: the two functions have the same blocks in the same order, the same
  instructions up to their metadata, and the same loads and stores with their metadata.
\<close>

definition sameInsts :: "func \<Rightarrow> func \<Rightarrow> bool" where
  "sameInsts F F' =
     (map fst F' = map fst F \<and>
      mset (map clearMetadata (allInsts F')) = mset (map clearMetadata (allInsts F)) \<and>
      mset (filter (\<lambda>x. \<not> NotALoadOrStore x) (allInsts F'))
        = mset (filter (\<lambda>x. \<not> NotALoadOrStore x) (allInsts F)))"

text \<open>
  \<open>accepts L f i\<close>: at the placement \<open>f\<close>, the turn of the worklist loop of \<open>L\<close> would
  relocate \<open>i\<close>. A loop is quiet when it has no preheader, or when its sub-loops are quiet
  and none of the instructions in its blocks is accepted; these are the loops the walker
  visits.
\<close>

definition accepts :: "loop \<Rightarrow> func \<Rightarrow> inst \<Rightarrow> bool" where
  "accepts L f i =
     (if NotALoadOrStore i then
        AreAllOperandsLoopInvaraint L f i \<and> \<not> isLoopInvariant L f (Result (addr i)) \<and>
        isSafeToSpeculativelyExecute i \<and> \<not> mayReadFromMemory i \<and> \<not> isEHPad i
      else case kind i of LoadInst a \<Rightarrow> CanMoveOutofLoop L f i a | _ \<Rightarrow> False)"

fun quietLoop :: "loop \<Rightarrow> func \<Rightarrow> bool"
  and quietLoops :: "loop list \<Rightarrow> func \<Rightarrow> bool" where
  "quietLoop (Loop preheader bbs subloops) f =
     (case preheader of
        None \<Rightarrow> True
      | Some PH \<Rightarrow>
          quietLoops subloops f \<and>
          list_all (\<lambda>i. \<not> accepts (Loop preheader bbs subloops) f i)
            (loopInsts (Loop preheader bbs subloops) f))"
| "quietLoops [] f = True"
| "quietLoops (L # Ls) f = (quietLoop L f \<and> quietLoops Ls f)"

definition quietModule :: "module \<Rightarrow> bool" where
  "quietModule M = list_all (\<lambda>(F, LI). quietLoops LI F) M"

text \<open>
  A function is well formed when its blocks have distinct names and its instructions
  distinct addresses, as the blocks and instructions of an LLVM function do.
\<close>

definition wfFunc :: "func \<Rightarrow> bool" where
  "wfFunc f = (distinct (map fst f) \<and> distinct (map addr (allInsts f)))"

text \<open>
  \<open>stable L f0 f\<close> relates the placement \<open>f0\<close> at which the blocks of \<open>L\<close> start to be
  examined to a later placement \<open>f\<close> of the same visit: no instruction has entered the
  loop, the instructions in its blocks are as they were, every block has the stores it
  had, every block that ended in a terminator still ends in it, and the local
  allocations are the same. \<open>decided L f0 i b0 A\<close>: at every such placement
  where \<open>i\<close> is in block \<open>b0\<close>, the worklist loop accepts \<open>i\<close> exactly when \<open>A\<close> holds.
\<close>

definition stable :: "loop \<Rightarrow> func \<Rightarrow> func \<Rightarrow> bool" where
  "stable L f0 f =
     (wfFunc f0 \<and> wfFunc f \<and>
      (\<forall>a. contains L f a \<longrightarrow> contains L f0 a) \<and>
      (\<forall>b. b \<in> set (loopBlocks L) \<longrightarrow> set (instsOf f b) \<subseteq> set (instsOf f0 b)) \<and>
      (\<forall>b. filter isaStoreInst (instsOf f b) = filter isaStoreInst (instsOf f0 b)) \<and>
      (\<forall>p t. getTerminator f0 p = Some t \<longrightarrow> getTerminator f p = Some t) \<and>
      (\<forall>v. isaAllocaInst f v = isaAllocaInst f0 v))"

definition decided :: "loop \<Rightarrow> func \<Rightarrow> inst \<Rightarrow> bid \<Rightarrow> bool \<Rightarrow> bool" where
  "decided L f0 i b0 A =
     (\<forall>g. stable L f0 g \<longrightarrow> i \<in> set (instsOf g b0) \<longrightarrow> accepts L g i = A)"

text \<open>
  Terminators: \<open>keepsTerminators f f'\<close> when every block that ends in a terminator in
  \<open>f\<close> ends in the same one in \<open>f'\<close>; \<open>preheaderEnds L f\<close> when the preheader of every
  loop that the walker visits from \<open>L\<close> ends in a terminator.
\<close>

definition keepsTerminators :: "func \<Rightarrow> func \<Rightarrow> bool" where
  "keepsTerminators f f' = (\<forall>p t. getTerminator f p = Some t \<longrightarrow> getTerminator f' p = Some t)"

fun preheaderEnds :: "loop \<Rightarrow> func \<Rightarrow> bool"
  and preheadersEnd :: "loop list \<Rightarrow> func \<Rightarrow> bool" where
  "preheaderEnds (Loop preheader bbs subloops) f =
     (case preheader of
        None \<Rightarrow> True
      | Some PH \<Rightarrow> getTerminator f PH \<noteq> None \<and> preheadersEnd subloops f)"
| "preheadersEnd [] f = True"
| "preheadersEnd (L # Ls) f = (preheaderEnds L f \<and> preheadersEnd Ls f)"

definition preheadersEndIn :: "module \<Rightarrow> bool" where
  "preheadersEndIn M = list_all (\<lambda>(F, LI). preheadersEnd LI F) M"

text \<open>
  Instructions that a run never relocated, and the part of a function made of them:
  \<^verbatim>\<open>untouched lg F F'\<close> says that \<^verbatim>\<open>F'\<close> and \<^verbatim>\<open>F\<close> agree on every selection of instructions
  that the log \<^verbatim>\<open>lg\<close> does not mention.
\<close>

definition neverMoved :: "relocation list \<Rightarrow> inst \<Rightarrow> bool" where
  "neverMoved lg i = (addr i \<notin> set (map (\<lambda>r. addr (moved r)) lg))"

definition untouched :: "relocation list \<Rightarrow> func \<Rightarrow> func \<Rightarrow> bool" where
  "untouched lg F F' = (\<forall>Q. (\<forall>x. Q x \<longrightarrow> neverMoved lg x) \<longrightarrow> onlyInsts Q F' = onlyInsts Q F)"

text \<open>
  The loops of a forest: a loop, the loops nested in it, and so on; and the loops of the
  functions of a module that have a block (the others are skipped by the pass).
\<close>

fun loopsOf :: "loop \<Rightarrow> loop list"
  and loopsIn :: "loop list \<Rightarrow> loop list" where
  "loopsOf (Loop preheader bbs subloops) = Loop preheader bbs subloops # loopsIn subloops"
| "loopsIn [] = []"
| "loopsIn (L # Ls) = loopsOf L @ loopsIn Ls"

definition loopsOfModule :: "module \<Rightarrow> loop list" where
  "loopsOfModule M = concat (map (\<lambda>(F, LI). if F = [] then [] else loopsIn LI) M)"

definition lacksPreheader :: "loop \<Rightarrow> bool" where
  "lacksPreheader L = (getLoopPreheader L = None)"

definition innermostIfNoPreheader :: "loop \<Rightarrow> bool" where
  "innermostIfNoPreheader L = (lacksPreheader L \<longrightarrow> getSubLoops L = [])"

text \<open>
  The order of definitions and uses. \<open>usesBefore f d i\<close>: the instruction \<open>d\<close> lies at a
  lower address than \<open>i\<close> and in the same block or in a block with a lower number.
  \<open>defsFirst f\<close>: every instruction of \<open>f\<close> that the pass can relocate and that uses the
  result of another such instruction comes after it in that sense; then the worklist
  loop, which takes the blocks in their order and the instructions of a block in the
  order of their addresses, examines a definition before its uses.
\<close>

definition usesBefore :: "func \<Rightarrow> inst \<Rightarrow> inst \<Rightarrow> bool" where
  "usesBefore f d i =
     (addr d < addr i \<and>
      (case getParent f (addr d) of
         None \<Rightarrow> False
       | Some bd \<Rightarrow> (case getParent f (addr i) of None \<Rightarrow> False | Some bi \<Rightarrow> bd \<le> bi)))"

definition defsFirst :: "func \<Rightarrow> bool" where
  "defsFirst f =
     list_all (\<lambda>i. list_all (\<lambda>d.
         hoistable i \<and> hoistable d \<and> Result (addr d) \<in> set (operands i) \<longrightarrow> usesBefore f d i)
       (allInsts f)) (allInsts f)"

text \<open>
  The shape of a loop forest. \<open>spanOf L\<close> lists the preheader and the blocks of a loop
  that has a preheader. A loop with preheader \<open>PH\<close> is \<open>orderly\<close> when its blocks are
  the blocks numbered \<open>PH + 1\<close>, \<open>PH + 2\<close>, ... in that order, its sub-loops lie in it
  with their preheaders, apart from each other, and are orderly; a loop without a
  preheader is not visited and nothing is asked of it.
\<close>

definition spanOf :: "loop \<Rightarrow> bid list" where
  "spanOf L = (case getLoopPreheader L of None \<Rightarrow> [] | Some PH \<Rightarrow> PH # loopBlocks L)"

fun orderly :: "loop \<Rightarrow> bool"
  and orderlyLoops :: "loop list \<Rightarrow> bool" where
  "orderly (Loop preheader bbs subloops) =
     (case preheader of
        None \<Rightarrow> True
      | Some PH \<Rightarrow>
          bbs = [Suc PH ..< Suc PH + length bbs] \<and>
          list_all (\<lambda>S. list_all (\<lambda>b. b \<in> set bbs) (spanOf S)) subloops \<and>
          orderlyLoops subloops)"
| "orderlyLoops [] = True"
| "orderlyLoops (L # Ls) =
     (orderly L \<and>
      list_all (\<lambda>K. list_all (\<lambda>b. b \<notin> set (spanOf K)) (spanOf L)) Ls \<and>
      orderlyLoops Ls)"

definition orderlyModule :: "module \<Rightarrow> bool" where
  "orderlyModule M = list_all (\<lambda>(F, LI). wfFunc F \<and> defsFirst F \<and> orderlyLoops LI) M"

text \<open>
  \<open>stuck L f x\<close>: the instruction \<open>x\<close> is in a block of \<open>L\<close> at the placement \<open>f\<close> and
  the worklist loop of \<open>L\<close> cannot relocate it: it is not an instruction the pass can
  relocate, or it is a load that a store of the loop blocks, or one of its operands is
  the result of an instruction of the loop that is stuck. A loop is \<open>settled\<close> when it has
  no preheader, or when every instruction in its blocks is stuck and its sub-loops are
  settled.
\<close>

inductive stuck :: "loop \<Rightarrow> func \<Rightarrow> inst \<Rightarrow> bool" for L f where
  static: "x \<in> set (loopInsts L f) \<Longrightarrow> \<not> hoistable x \<Longrightarrow> stuck L f x"
| blocked: "x \<in> set (loopInsts L f) \<Longrightarrow> kind x = LoadInst a \<Longrightarrow>
      list_ex (blocksLoad f a) (loopInsts L f) \<Longrightarrow> stuck L f x"
| operand: "x \<in> set (loopInsts L f) \<Longrightarrow> NotALoadOrStore x \<Longrightarrow>
      Result (addr d) \<in> set (operands x) \<Longrightarrow> d \<in> set (loopInsts L f) \<Longrightarrow> stuck L f d \<Longrightarrow>
      stuck L f x"

fun settled :: "loop \<Rightarrow> func \<Rightarrow> bool"
  and settledAll :: "loop list \<Rightarrow> func \<Rightarrow> bool" where
  "settled (Loop preheader bbs subloops) f =
     (case preheader of
        None \<Rightarrow> True
      | Some PH \<Rightarrow>
          (\<forall>x \<in> set (loopInsts (Loop preheader bbs subloops) f). stuck (Loop preheader bbs subloops) f x) \<and>
          settledAll subloops f)"
| "settledAll [] f = True"
| "settledAll (L # Ls) f = (settled L f \<and> settledAll Ls f)"

section \<open>Example functions\<close>

text \<open>
  Small functions and loops on which the theorems below are evaluated. \<open>mkInst\<close> builds
  an instruction that is not volatile and that LLVM would not speculate; \<open>specInst\<close> one
  that it would (an add, a compare, ...).
\<close>

definition mkInst :: "iid \<Rightarrow> kind \<Rightarrow> inst" where
  "mkInst a k = \<lparr>addr = a, kind = k, isVolatile = False, speculatable = False,
                 mayReadFromMemory = False, isEHPad = False, metadata = []\<rparr>"

definition specInst :: "iid \<Rightarrow> kind \<Rightarrow> inst" where
  "specInst a k = \<lparr>addr = a, kind = k, isVolatile = False, speculatable = True,
                   mayReadFromMemory = False, isEHPad = False, metadata = []\<rparr>"

definition volatileInst :: "iid \<Rightarrow> kind \<Rightarrow> inst" where
  "volatileInst a k = \<lparr>addr = a, kind = k, isVolatile = True, speculatable = False,
                       mayReadFromMemory = False, isEHPad = False, metadata = []\<rparr>"

definition noStats :: stats where
  "noStats = \<lparr>NumLoops = 0, LICMBasic = 0, LICMLoadHoist = 0, LICMNoPreheader = 0,
              NumLoopsNoStore = 0, NumLoopsNoLoad = 0, NumLoopsNoStoreWithLoad = 0,
              NumLoopsWithCall = 0\<rparr>"

text \<open>
  \<open>exA\<close>: block 0 is the preheader of the one-block loop 1, block 2 the exit. The loop
  loads the global \<open>g\<close>, adds two constants (instruction 11) and compares the sum with
  a constant (instruction 9, which lies at a lower address than the add it uses).
\<close>

definition exA :: func where
  "exA = [(0, [mkInst 100 (TermInst [Label 1])]),
          (1, [mkInst 10 (LoadInst (GlobalVariable ''g'')),
               specInst 11 (OtherInst [Constant 1, Constant 2]),
               specInst 9 (OtherInst [Result 11, Constant 2]),
               mkInst 12 (TermInst [Result 9, Label 1, Label 2])]),
          (2, [mkInst 13 (TermInst [])])]"

definition loopA :: loop where
  "loopA = Loop (Some 0) [1] []"

text \<open>
  \<open>exB\<close>: the loop loads the global \<open>g\<close> and stores the loaded value through the
  pointer argument 0 of the function.
\<close>

definition exB :: func where
  "exB = [(0, [mkInst 100 (TermInst [Label 1])]),
          (1, [mkInst 10 (LoadInst (GlobalVariable ''g'')),
               mkInst 11 (StoreInst (Result 10) (Argument 0)),
               mkInst 12 (TermInst [Argument 1, Label 1, Label 2])]),
          (2, [mkInst 13 (TermInst [])])]"

text \<open>
  \<open>exC\<close>: the loop reads the global \<open>g\<close> with a volatile load, reads the pointer
  argument 0 with an ordinary load, and adds two constants; it has no store.
\<close>

definition exC :: func where
  "exC = [(0, [mkInst 100 (TermInst [Label 1])]),
          (1, [volatileInst 10 (LoadInst (GlobalVariable ''g'')),
               mkInst 11 (LoadInst (Argument 0)),
               specInst 14 (OtherInst [Constant 1, Constant 2]),
               mkInst 12 (TermInst [Argument 1, Label 1, Label 2])]),
          (2, [mkInst 13 (TermInst [])])]"

text \<open>
  \<open>exE\<close>: blocks 1, 2 and 3 form an outer loop that is entered from block 0 and from
  block 5, so it has no preheader. Block 2 is an inner loop by itself, with block 1 as
  its preheader; it adds two constants.
\<close>

definition exE :: func where
  "exE = [(0, [mkInst 100 (TermInst [Argument 0, Label 1, Label 5])]),
          (5, [mkInst 105 (TermInst [Label 1])]),
          (1, [mkInst 101 (TermInst [Label 2])]),
          (2, [specInst 20 (OtherInst [Constant 1, Constant 2]),
               mkInst 102 (TermInst [Argument 1, Label 2, Label 3])]),
          (3, [mkInst 103 (TermInst [Argument 2, Label 1, Label 4])]),
          (4, [mkInst 104 (TermInst [])])]"

definition innerE :: loop where
  "innerE = Loop (Some 1) [2] []"

definition outerE :: loop where
  "outerE = Loop None [1, 2, 3] [innerE]"

text \<open>
  \<open>exG\<close>: a loop of two blocks. The header 1 compares the argument 0 with a constant
  and branches on the result; the latch 2 calls a function that takes no argument and
  branches back to the header.
\<close>

definition exG :: func where
  "exG = [(0, [mkInst 100 (TermInst [Label 1])]),
          (1, [specInst 31 (OtherInst [Argument 0, Constant 0]),
               mkInst 32 (TermInst [Result 31, Label 2, Label 3])]),
          (2, [mkInst 30 (CallInst []),
               mkInst 33 (TermInst [Label 1])]),
          (3, [mkInst 34 (TermInst [])])]"

definition loopG :: loop where
  "loopG = Loop (Some 0) [1, 2] []"

text \<open>Running the pass a second time on the result of a first run.\<close>

definition runTwice :: "module \<Rightarrow> stats \<Rightarrow> error + (module \<times> stats \<times> relocation list)" where
  "runTwice M st =
     (case LoopInvariantCodeMotion M st of
        Inl e \<Rightarrow> Inl e
      | Inr (M1, st1, lg1) \<Rightarrow> LoopInvariantCodeMotion M1 st1)"

definition placementOf :: "error + (module \<times> stats \<times> relocation list) \<Rightarrow> error + func list" where
  "placementOf r = map_sum id (\<lambda>(M, st, lg). map fst M) r"

text \<open>
  The placements a run goes through on \<open>exA\<close>: after the load is hoisted, after the
  first run, and after a second run.
\<close>

definition exA_load_hoisted :: func where
  "exA_load_hoisted =
     [(0, [mkInst 10 (LoadInst (GlobalVariable ''g'')),
           mkInst 100 (TermInst [Label 1])]),
      (1, [specInst 11 (OtherInst [Constant 1, Constant 2]),
           specInst 9 (OtherInst [Result 11, Constant 2]),
           mkInst 12 (TermInst [Result 9, Label 1, Label 2])]),
      (2, [mkInst 13 (TermInst [])])]"

definition exA_once :: func where
  "exA_once =
     [(0, [mkInst 10 (LoadInst (GlobalVariable ''g'')),
           specInst 11 (OtherInst [Constant 1, Constant 2]),
           mkInst 100 (TermInst [Label 1])]),
      (1, [specInst 9 (OtherInst [Result 11, Constant 2]),
           mkInst 12 (TermInst [Result 9, Label 1, Label 2])]),
      (2, [mkInst 13 (TermInst [])])]"

definition exA_twice :: func where
  "exA_twice =
     [(0, [mkInst 10 (LoadInst (GlobalVariable ''g'')),
           specInst 11 (OtherInst [Constant 1, Constant 2]),
           specInst 9 (OtherInst [Result 11, Constant 2]),
           mkInst 100 (TermInst [Label 1])]),
      (1, [mkInst 12 (TermInst [Result 9, Label 1, Label 2])]),
      (2, [mkInst 13 (TermInst [])])]"

definition logA :: "relocation list" where
  "logA =
     [\<lparr>moved = mkInst 10 (LoadInst (GlobalVariable ''g'')), outOf = loopA, placement = exA\<rparr>,
      \<lparr>moved = specInst 11 (OtherInst [Constant 1, Constant 2]), outOf = loopA,
        placement = exA_load_hoisted\<rparr>]"

definition statsA :: stats where
  "statsA = noStats\<lparr>NumLoops := 1, LICMBasic := 1, LICMLoadHoist := 1, NumLoopsNoStoreWithLoad := 1\<rparr>"

text \<open>\<open>exC\<close> after a run: the add is in the preheader, the two loads are where they were.\<close>

definition exC_once :: func where
  "exC_once =
     [(0, [specInst 14 (OtherInst [Constant 1, Constant 2]),
           mkInst 100 (TermInst [Label 1])]),
      (1, [volatileInst 10 (LoadInst (GlobalVariable ''g'')),
           mkInst 11 (LoadInst (Argument 0)),
           mkInst 12 (TermInst [Argument 1, Label 1, Label 2])]),
      (2, [mkInst 13 (TermInst [])])]"

definition logC :: "relocation list" where
  "logC = [\<lparr>moved = specInst 14 (OtherInst [Constant 1, Constant 2]), outOf = loopA, placement = exC\<rparr>]"

definition statsC :: stats where
  "statsC = noStats\<lparr>NumLoops := 1, LICMBasic := 1, NumLoopsNoStoreWithLoad := 1\<rparr>"

text \<open>\<open>exE\<close> after a run on the inner loop alone: the add is in block 1.\<close>

definition exE_inner :: func where
  "exE_inner =
     [(0, [mkInst 100 (TermInst [Argument 0, Label 1, Label 5])]),
      (5, [mkInst 105 (TermInst [Label 1])]),
      (1, [specInst 20 (OtherInst [Constant 1, Constant 2]),
           mkInst 101 (TermInst [Label 2])]),
      (2, [mkInst 102 (TermInst [Argument 1, Label 2, Label 3])]),
      (3, [mkInst 103 (TermInst [Argument 2, Label 1, Label 4])]),
      (4, [mkInst 104 (TermInst [])])]"

text \<open>\<open>exG\<close> after a run: the compare is in the preheader, the call and the branches stay.\<close>

definition exG_once :: func where
  "exG_once =
     [(0, [specInst 31 (OtherInst [Argument 0, Constant 0]),
           mkInst 100 (TermInst [Label 1])]),
      (1, [mkInst 32 (TermInst [Result 31, Label 2, Label 3])]),
      (2, [mkInst 30 (CallInst []),
           mkInst 33 (TermInst [Label 1])]),
      (3, [mkInst 34 (TermInst [])])]"

definition logG :: "relocation list" where
  "logG = [\<lparr>moved = specInst 31 (OtherInst [Argument 0, Constant 0]), outOf = loopG, placement = exG\<rparr>]"

definition statsG :: stats where
  "statsG = noStats\<lparr>NumLoops := 1, LICMBasic := 1, NumLoopsNoLoad := 2\<rparr>"


text \<open>
  \<open>exM\<close>: the loop reads the pointer argument 0 and adds two floating-point constants;
  the add carries a \<^verbatim>\<open>!fpmath\<close> attachment. After a run the add is in the preheader
  without it.
\<close>

definition fpAdd :: "(string \<times> nat) list \<Rightarrow> inst" where
  "fpAdd md = (specInst 14 (OtherInst [Constant 1, Constant 2]))\<lparr>metadata := md\<rparr>"

definition exM :: func where
  "exM = [(0, [mkInst 100 (TermInst [Label 1])]),
          (1, [mkInst 10 (LoadInst (Argument 0)),
               fpAdd [(''fpmath'', 7)],
               mkInst 12 (TermInst [Argument 1, Label 1, Label 2])]),
          (2, [mkInst 13 (TermInst [])])]"

definition exM_once :: func where
  "exM_once =
     [(0, [fpAdd [],
           mkInst 100 (TermInst [Label 1])]),
      (1, [mkInst 10 (LoadInst (Argument 0)),
           mkInst 12 (TermInst [Argument 1, Label 1, Label 2])]),
      (2, [mkInst 13 (TermInst [])])]"

definition logM :: "relocation list" where
  "logM = [\<lparr>moved = fpAdd [(''fpmath'', 7)], outOf = loopA, placement = exM\<rparr>]"

definition statsM :: stats where
  "statsM = noStats\<lparr>NumLoops := 1, LICMBasic := 1, NumLoopsNoStoreWithLoad := 1\<rparr>"

text \<open>
  \<open>exH\<close>: the loop reads the global \<open>g\<close> and increments it with an atomicrmw. After a
  run the load is in the preheader.
\<close>

definition atomicInc :: inst where
  "atomicInc = (mkInst 11 (AtomicRMWInst (GlobalVariable ''g'') (Constant 1)))\<lparr>mayReadFromMemory := True\<rparr>"

definition exH :: func where
  "exH = [(0, [mkInst 100 (TermInst [Label 1])]),
          (1, [mkInst 10 (LoadInst (GlobalVariable ''g'')),
               atomicInc,
               mkInst 12 (TermInst [Argument 1, Label 1, Label 2])]),
          (2, [mkInst 13 (TermInst [])])]"

definition exH_once :: func where
  "exH_once =
     [(0, [mkInst 10 (LoadInst (GlobalVariable ''g'')),
           mkInst 100 (TermInst [Label 1])]),
      (1, [atomicInc,
           mkInst 12 (TermInst [Argument 1, Label 1, Label 2])]),
      (2, [mkInst 13 (TermInst [])])]"

text \<open>
  \<open>exF\<close>: blocks 1, 4, 5, 2 and 6 form an outer loop with preheader 0. The header 1
  branches to 4 or 5, which both branch to 2; block 2 is an inner loop by itself, entered
  from 4 and from 5, so it has no preheader. It adds two constants.
\<close>

definition exF :: func where
  "exF = [(0, [mkInst 100 (TermInst [Label 1])]),
          (1, [mkInst 101 (TermInst [Argument 0, Label 4, Label 5])]),
          (4, [mkInst 104 (TermInst [Label 2])]),
          (5, [mkInst 105 (TermInst [Label 2])]),
          (2, [specInst 20 (OtherInst [Constant 1, Constant 2]),
               mkInst 102 (TermInst [Argument 1, Label 2, Label 6])]),
          (6, [mkInst 106 (TermInst [Argument 2, Label 1, Label 7])]),
          (7, [mkInst 107 (TermInst [])])]"

definition innerF :: loop where
  "innerF = Loop None [2] []"

definition outerF :: loop where
  "outerF = Loop (Some 0) [1, 4, 5, 2, 6] [innerF]"

definition exF_once :: func where
  "exF_once =
     [(0, [specInst 20 (OtherInst [Constant 1, Constant 2]),
           mkInst 100 (TermInst [Label 1])]),
      (1, [mkInst 101 (TermInst [Argument 0, Label 4, Label 5])]),
      (4, [mkInst 104 (TermInst [Label 2])]),
      (5, [mkInst 105 (TermInst [Label 2])]),
      (2, [mkInst 102 (TermInst [Argument 1, Label 2, Label 6])]),
      (6, [mkInst 106 (TermInst [Argument 2, Label 1, Label 7])]),
      (7, [mkInst 107 (TermInst [])])]"

definition statsF :: stats where
  "statsF = noStats\<lparr>NumLoops := 2, LICMBasic := 1, LICMNoPreheader := 1, NumLoopsNoLoad := 5\<rparr>"

definition logF :: "relocation list" where
  "logF = [\<lparr>moved = specInst 20 (OtherInst [Constant 1, Constant 2]), outOf = outerF,
             placement = exF\<rparr>]"

text \<open>
  \<open>exN\<close>: blocks 1 to 4 form an outer loop with preheader 0; block 2 is an inner loop by
  itself, with block 1 as its preheader. The inner loop adds two constants and loads the
  global \<open>g\<close>; block 3 adds the two results and stores the sum to \<open>g\<close>. A run hoists the
  add out of both loops and the load out of the inner loop only.
\<close>

definition exN :: func where
  "exN = [(0, [mkInst 100 (TermInst [Label 1])]),
          (1, [mkInst 101 (TermInst [Label 2])]),
          (2, [specInst 20 (OtherInst [Constant 1, Constant 2]),
               mkInst 21 (LoadInst (GlobalVariable ''g'')),
               mkInst 102 (TermInst [Argument 0, Label 2, Label 3])]),
          (3, [specInst 30 (OtherInst [Result 20, Result 21]),
               mkInst 31 (StoreInst (Result 30) (GlobalVariable ''g'')),
               mkInst 103 (TermInst [Label 4])]),
          (4, [mkInst 104 (TermInst [Argument 1, Label 1, Label 5])]),
          (5, [mkInst 105 (TermInst [])])]"

definition innerN :: loop where
  "innerN = Loop (Some 1) [2] []"

definition outerN :: loop where
  "outerN = Loop (Some 0) [1, 2, 3, 4] [innerN]"

definition exN_once :: func where
  "exN_once =
     [(0, [specInst 20 (OtherInst [Constant 1, Constant 2]),
           mkInst 100 (TermInst [Label 1])]),
      (1, [mkInst 21 (LoadInst (GlobalVariable ''g'')),
           mkInst 101 (TermInst [Label 2])]),
      (2, [mkInst 102 (TermInst [Argument 0, Label 2, Label 3])]),
      (3, [specInst 30 (OtherInst [Result 20, Result 21]),
           mkInst 31 (StoreInst (Result 30) (GlobalVariable ''g'')),
           mkInst 103 (TermInst [Label 4])]),
      (4, [mkInst 104 (TermInst [Argument 1, Label 1, Label 5])]),
      (5, [mkInst 105 (TermInst [])])]"

definition exN_1 :: func where
  "exN_1 =
     [(0, [mkInst 100 (TermInst [Label 1])]),
      (1, [specInst 20 (OtherInst [Constant 1, Constant 2]),
           mkInst 101 (TermInst [Label 2])]),
      (2, [mkInst 21 (LoadInst (GlobalVariable ''g'')),
           mkInst 102 (TermInst [Argument 0, Label 2, Label 3])]),
      (3, [specInst 30 (OtherInst [Result 20, Result 21]),
           mkInst 31 (StoreInst (Result 30) (GlobalVariable ''g'')),
           mkInst 103 (TermInst [Label 4])]),
      (4, [mkInst 104 (TermInst [Argument 1, Label 1, Label 5])]),
      (5, [mkInst 105 (TermInst [])])]"

definition exN_2 :: func where
  "exN_2 =
     [(0, [mkInst 100 (TermInst [Label 1])]),
      (1, [specInst 20 (OtherInst [Constant 1, Constant 2]),
           mkInst 21 (LoadInst (GlobalVariable ''g'')),
           mkInst 101 (TermInst [Label 2])]),
      (2, [mkInst 102 (TermInst [Argument 0, Label 2, Label 3])]),
      (3, [specInst 30 (OtherInst [Result 20, Result 21]),
           mkInst 31 (StoreInst (Result 30) (GlobalVariable ''g'')),
           mkInst 103 (TermInst [Label 4])]),
      (4, [mkInst 104 (TermInst [Argument 1, Label 1, Label 5])]),
      (5, [mkInst 105 (TermInst [])])]"

definition logN :: "relocation list" where
  "logN =
     [\<lparr>moved = specInst 20 (OtherInst [Constant 1, Constant 2]), outOf = innerN, placement = exN\<rparr>,
      \<lparr>moved = mkInst 21 (LoadInst (GlobalVariable ''g'')), outOf = innerN, placement = exN_1\<rparr>,
      \<lparr>moved = specInst 20 (OtherInst [Constant 1, Constant 2]), outOf = outerN, placement = exN_2\<rparr>]"

definition statsN :: stats where
  "statsN = noStats\<lparr>NumLoops := 2, LICMBasic := 2, LICMLoadHoist := 1, NumLoopsNoLoad := 3,
                    NumLoopsNoStoreWithLoad := 2\<rparr>"

section \<open>Lemmas\<close>

lemma hoistable_not_terminator: "hoistable i \<Longrightarrow> \<not> isTerminator i"
  by (auto simp: hoistable_def split: kind.splits)

lemma hoistable_not_store: "hoistable i \<Longrightarrow> \<not> isaStoreInst i"
  by (auto simp: hoistable_def split: kind.splits)

lemma alike_refl [simp]: "alike i i"
  by (simp add: alike_def)

lemma alike_clearMetadata [simp]: "alike i (clearMetadata i)"
  by (simp add: alike_def clearMetadata_def)

lemma alike_fields:
  assumes "alike i i'"
  shows "addr i' = addr i" and "kind i' = kind i" and "isVolatile i' = isVolatile i"
    and "speculatable i' = speculatable i" and "mayReadFromMemory i' = mayReadFromMemory i"
    and "isEHPad i' = isEHPad i"
  using assms by (cases i; cases i'; simp add: alike_def clearMetadata_def)+

lemma alike_hoistable: "alike i i' \<Longrightarrow> hoistable i' = hoistable i"
  using alike_fields [of i i'] by (auto simp: hoistable_def split: kind.splits)

lemma alike_isTerminator: "alike i i' \<Longrightarrow> isTerminator i' = isTerminator i"
  using alike_fields [of i i'] by simp

lemma alike_isaStoreInst: "alike i i' \<Longrightarrow> isaStoreInst i' = isaStoreInst i"
  using alike_fields [of i i'] by simp

lemma alike_isaLoadInst: "alike i i' \<Longrightarrow> isaLoadInst i' = isaLoadInst i"
  using alike_fields [of i i'] by simp

lemma alike_NotALoadOrStore: "alike i i' \<Longrightarrow> NotALoadOrStore i' = NotALoadOrStore i"
  using alike_fields [of i i'] by (simp add: NotALoadOrStore_def)

lemma map_insertBefore_absent:
  "I \<notin> set xs \<Longrightarrow>
     map (\<lambda>j. if j = I then clearMetadata j else j) (insertBefore I dst xs)
       = insertBefore (clearMetadata I) dst xs"
  by (induction xs) auto

lemma dropUnknownNonDebugMetadata_moveBefore:
  "dropUnknownNonDebugMetadata I (moveBefore I dst f) = relink (clearMetadata I) I dst f"
  unfolding dropUnknownNonDebugMetadata_def moveBefore_def relink_def linkBefore_def unlink_def
  by (induction f) (auto simp: map_insertBefore_absent)

lemma moveBefore_relink: "moveBefore i dst f = relink i i dst f"
  by (simp add: moveBefore_def relink_def)

lemma makeLoopInvariant_cases:
  assumes "makeLoopInvariant L i f = Inr (f', changed)"
  shows "(\<not> changed \<and> f' = f) \<or>
         (changed \<and> isSafeToSpeculativelyExecute i \<and> \<not> mayReadFromMemory i \<and> \<not> isEHPad i \<and>
          (\<exists>p dst. getLoopPreheader L = Some p \<and> getTerminator f p = Some dst \<and>
             f' = relink (clearMetadata i) i dst f))"
  using assms unfolding makeLoopInvariant_def dropUnknownNonDebugMetadata_moveBefore
  by (auto split: if_splits option.splits)

lemma visitInst_cases:
  assumes "visitInst L PH i (f, st, lg) = Inr (f', st', lg')"
  shows "(f' = f \<and> st' = st \<and> lg' = lg) \<or>
         (\<exists>dst p i'. (p = PH \<or> getLoopPreheader L = Some p) \<and> getTerminator f p = Some dst \<and>
            hoistable i \<and> alike i i' \<and> (isaLoadInst i \<longrightarrow> i' = i) \<and>
            (NotALoadOrStore i \<longrightarrow> i' = clearMetadata i) \<and>
            (i' = i \<or> i' = clearMetadata i) \<and>
            f' = relink i' i dst f \<and>
            lg' = lg @ [\<lparr>moved = i, outOf = L, placement = f\<rparr>] \<and>
            st' = (if isaLoadInst i then st\<lparr>LICMLoadHoist := LICMLoadHoist st + 1\<rparr>
                   else st\<lparr>LICMBasic := LICMBasic st + 1\<rparr>))"
proof (cases "NotALoadOrStore i")
  case True
  then have nl: "\<not> isaLoadInst i" and ns: "\<not> isaStoreInst i"
    by (auto simp: NotALoadOrStore_def split: if_splits)
  show ?thesis
  proof (cases "AreAllOperandsLoopInvaraint L f i")
    case False
    with assms True show ?thesis by (simp add: visitInst_def)
  next
    case inv: True
    with assms True obtain g c where m: "makeLoopInvariant L i f = Inr (g, c)"
      by (cases "makeLoopInvariant L i f") (auto simp: visitInst_def)
    show ?thesis
    proof (cases c)
      case False
      with makeLoopInvariant_cases [OF m] have "g = f" by simp
      with assms True inv m False show ?thesis by (simp add: visitInst_def)
    next
      case c: True
      with makeLoopInvariant_cases [OF m] obtain p dst
        where fl: "isSafeToSpeculativelyExecute i" "\<not> mayReadFromMemory i" "\<not> isEHPad i"
          and p: "getLoopPreheader L = Some p" and t: "getTerminator f p = Some dst"
          and g: "g = relink (clearMetadata i) i dst f"
        by auto
      from fl nl ns have h: "hoistable i"
        by (auto simp: hoistable_def split: kind.splits)
      from assms True inv m c have r: "f' = g" "st' = st\<lparr>LICMBasic := LICMBasic st + 1\<rparr>"
        "lg' = lg @ [\<lparr>moved = i, outOf = L, placement = f\<rparr>]"
        by (simp_all add: visitInst_def)
      have "(p = PH \<or> getLoopPreheader L = Some p) \<and> getTerminator f p = Some dst \<and>
            hoistable i \<and> alike i (clearMetadata i) \<and> (isaLoadInst i \<longrightarrow> clearMetadata i = i) \<and>
            (NotALoadOrStore i \<longrightarrow> clearMetadata i = clearMetadata i) \<and>
            (clearMetadata i = i \<or> clearMetadata i = clearMetadata i) \<and>
            f' = relink (clearMetadata i) i dst f \<and>
            lg' = lg @ [\<lparr>moved = i, outOf = L, placement = f\<rparr>] \<and>
            st' = (if isaLoadInst i then st\<lparr>LICMLoadHoist := LICMLoadHoist st + 1\<rparr>
                   else st\<lparr>LICMBasic := LICMBasic st + 1\<rparr>)"
        using p t h nl r g by simp
      then show ?thesis by blast
    qed
  qed
next
  case False
  show ?thesis
  proof (cases "kind i")
    case (LoadInst a)
    show ?thesis
    proof (cases "CanMoveOutofLoop L f i a")
      case c: True
      with assms False LoadInst obtain dst where t: "getTerminator f PH = Some dst"
        and r: "f' = relink i i dst f" "st' = st\<lparr>LICMLoadHoist := LICMLoadHoist st + 1\<rparr>"
          "lg' = lg @ [\<lparr>moved = i, outOf = L, placement = f\<rparr>]"
        by (auto simp: visitInst_def hoistInstructionToPreheader_def moveBefore_relink
            split: option.splits)
      from c LoadInst have h: "hoistable i"
        by (auto simp: hoistable_def CanMoveOutofLoop_def split: if_splits)
      have "(PH = PH \<or> getLoopPreheader L = Some PH) \<and> getTerminator f PH = Some dst \<and>
            hoistable i \<and> alike i i \<and> (isaLoadInst i \<longrightarrow> i = i) \<and>
            (NotALoadOrStore i \<longrightarrow> i = clearMetadata i) \<and>
            (i = i \<or> i = clearMetadata i) \<and>
            f' = relink i i dst f \<and>
            lg' = lg @ [\<lparr>moved = i, outOf = L, placement = f\<rparr>] \<and>
            st' = (if isaLoadInst i then st\<lparr>LICMLoadHoist := LICMLoadHoist st + 1\<rparr>
                   else st\<lparr>LICMBasic := LICMBasic st + 1\<rparr>)"
        using t h r LoadInst False by simp
      then show ?thesis by blast
    next
      case False
      with assms LoadInst \<open>\<not> NotALoadOrStore i\<close> show ?thesis
        by (simp add: visitInst_def)
    qed
  qed (use assms False in \<open>auto simp: visitInst_def NotALoadOrStore_def\<close>)
qed

lemma getTerminator_SomeD:
  assumes "getTerminator f p = Some dst"
  shows "isTerminator dst" and "dst \<in> set (instsOf f p)" and "instsOf f p = butlast (instsOf f p) @ [dst]"
  using assms unfolding getTerminator_def Let_def
  by (auto split: if_splits)

lemma allInsts_Nil [simp]: "allInsts [] = []"
  by (simp add: allInsts_def)

lemma allInsts_Cons [simp]: "allInsts ((b, ins) # f) = ins @ allInsts f"
  by (simp add: allInsts_def)

lemma unlink_Nil [simp]: "unlink i [] = []"
  by (simp add: unlink_def)

lemma unlink_Cons [simp]: "unlink i ((b, ins) # f) = (b, removeAll i ins) # unlink i f"
  by (simp add: unlink_def)

lemma linkBefore_Nil [simp]: "linkBefore i dst [] = []"
  by (simp add: linkBefore_def)

lemma linkBefore_Cons [simp]:
  "linkBefore i dst ((b, ins) # f) = (b, insertBefore i dst ins) # linkBefore i dst f"
  by (simp add: linkBefore_def)

lemma instsOf_subset: "set (instsOf f b) \<subseteq> set (allInsts f)"
proof (cases "map_of f b")
  case None
  then show ?thesis by (simp add: instsOf_def)
next
  case (Some ins)
  then have "(b, ins) \<in> set f" by (rule map_of_SomeD)
  then have "set ins \<subseteq> set (allInsts f)" unfolding allInsts_def by force
  with Some show ?thesis by (simp add: instsOf_def)
qed

lemma map_fst_unlink: "map fst (unlink i f) = map fst f"
  by (induction f) auto

lemma map_fst_linkBefore: "map fst (linkBefore i dst f) = map fst f"
  by (induction f) auto

lemma map_fst_relink: "map fst (relink i' i dst f) = map fst f"
  by (simp add: relink_def map_fst_unlink map_fst_linkBefore)

lemma count_list_removeAll:
  "count_list (removeAll i xs) x = (if x = i then 0 else count_list xs x)"
  by (induction xs) auto

lemma count_list_insertBefore:
  "count_list (insertBefore i dst xs) x =
     count_list xs x + (if x = i then count_list xs dst else 0)"
  by (induction xs) auto

lemma count_list_unlink:
  "count_list (allInsts (unlink i f)) x = (if x = i then 0 else count_list (allInsts f) x)"
  by (induction f) (auto simp: count_list_removeAll)

lemma count_list_linkBefore:
  "count_list (allInsts (linkBefore i dst f)) x =
     count_list (allInsts f) x + (if x = i then count_list (allInsts f) dst else 0)"
  by (induction f) (auto simp: count_list_insertBefore)

lemma count_list_relink:
  assumes "i \<noteq> dst"
  shows "count_list (allInsts (relink i' i dst f)) x =
           (if x = i then 0 else count_list (allInsts f) x) +
           (if x = i' then count_list (allInsts f) dst else 0)"
  using assms by (simp add: relink_def count_list_linkBefore count_list_unlink)

lemma in_set_count_list: "x \<in> set xs \<longleftrightarrow> 0 < count_list xs x"
  using count_list_0_iff [of xs x] by auto

lemma set_allInsts_relink:
  assumes "dst \<in> set (allInsts f)" "i \<noteq> dst"
  shows "set (allInsts (relink i' i dst f)) = insert i' (set (allInsts f) - {i})"
  using assms by (auto simp: in_set_count_list count_list_relink split: if_splits)

lemma mset_allInsts_relink:
  assumes "distinct (allInsts f)" "i \<in> set (allInsts f)" "dst \<in> set (allInsts f)" "i \<noteq> dst"
  shows "mset (allInsts (relink i' i dst f)) = mset (allInsts f) - {#i#} + {#i'#}"
proof (rule multiset_eqI)
  fix x
  have c: "count_list (allInsts f) a = (if a \<in> set (allInsts f) then 1 else 0)" for a
    using assms(1) unfolding distinct_count_atmost_1 count_mset by simp
  show "count (mset (allInsts (relink i' i dst f))) x = count (mset (allInsts f) - {#i#} + {#i'#}) x"
    using assms by (simp add: count_mset count_list_relink c)
qed

lemma others_remain:
  assumes "x \<in> set (allInsts f)" and "x \<noteq> i"
  shows "x \<in> set (allInsts (relink i' i dst f))"
proof -
  have "0 < count_list (allInsts (unlink i f)) x"
    using assms by (simp add: count_list_unlink in_set_count_list [symmetric])
  then show ?thesis
    by (simp add: relink_def in_set_count_list count_list_linkBefore)
qed

lemma visitInst_others_remain:
  assumes "visitInst L PH i (f, st, lg) = Inr (f', st', lg')"
    and "x \<in> set (allInsts f)" and "x \<noteq> i"
  shows "x \<in> set (allInsts f')"
  using visitInst_cases [OF assms(1)] assms(2,3) by (auto intro: others_remain)

subsection \<open>From one turn of the worklist loop to a run\<close>

lemma drainWorklist_lift:
  assumes step: "\<And>i f st lg f' st' lg'.
      \<lbrakk>\<Phi> f st lg; visitInst L PH i (f, st, lg) = Inr (f', st', lg')\<rbrakk> \<Longrightarrow> \<Phi> f' st' lg'"
    and run: "drainWorklist L PH wl (f, st, lg) = Inr (f', st', lg')"
    and init: "\<Phi> f st lg"
  shows "\<Phi> f' st' lg'"
  using run init
proof (induction wl arbitrary: f st lg)
  case Nil
  then show ?case by simp
next
  case (Cons i wl)
  from Cons.prems(1) obtain f1 st1 lg1
    where v: "visitInst L PH i (f, st, lg) = Inr (f1, st1, lg1)"
      and d: "drainWorklist L PH wl (f1, st1, lg1) = Inr (f', st', lg')"
    by (cases "visitInst L PH i (f, st, lg)") auto
  have p1: "\<Phi> f1 st1 lg1" using Cons.prems(2) v by (rule step)
  from Cons.IH [OF d p1] show ?case .
qed

lemma forBlocks_lift:
  assumes step: "\<And>i f st lg f' st' lg'.
      \<lbrakk>\<Phi> f st lg; visitInst L PH i (f, st, lg) = Inr (f', st', lg')\<rbrakk> \<Longrightarrow> \<Phi> f' st' lg'"
    and bk: "\<And>f st st2 lg.
      \<lbrakk>\<Phi> f st lg; LICMBasic st2 = LICMBasic st; LICMLoadHoist st2 = LICMLoadHoist st\<rbrakk>
      \<Longrightarrow> \<Phi> f st2 lg"
    and run: "forBlocks L PH bbs (f, st, lg) = Inr (f', st', lg')"
    and init: "\<Phi> f st lg"
  shows "\<Phi> f' st' lg'"
  using run init
proof (induction bbs arbitrary: f st lg)
  case Nil
  then show ?case by simp
next
  case (Cons bb bbs)
  define st0 where "st0 = updateStats (list_ex isaLoadInst (instsOf f bb))
      (list_ex isaStoreInst (instsOf f bb)) (list_ex isaCallInst (instsOf f bb)) st"
  from Cons.prems(1) obtain f1 st1 lg1
    where d: "drainWorklist L PH (sort_key addr (instsOf f bb)) (f, st0, lg) = Inr (f1, st1, lg1)"
      and r: "forBlocks L PH bbs (f1, st1, lg1) = Inr (f', st', lg')"
    unfolding st0_def
    by (cases "drainWorklist L PH (sort_key addr (instsOf f bb)) (f, updateStats (list_ex isaLoadInst (instsOf f bb))
      (list_ex isaStoreInst (instsOf f bb)) (list_ex isaCallInst (instsOf f bb)) st, lg)") (auto simp: Let_def)
  have p0: "\<Phi> f st0 lg"
    using Cons.prems(2) unfolding st0_def by (rule bk) (auto simp: updateStats_def)
  have "\<Phi> f1 st1 lg1"
    by (rule drainWorklist_lift [where \<Phi> = \<Phi>, OF _ d p0]) (rule step)
  with Cons.IH [OF r] show ?case by simp
qed

lemma OptimizeSubLoops_lift:
  assumes "OptimizeSubLoops Ls s = Inr s'" and "Q s"
    and "\<And>S s s'. \<lbrakk>S \<in> set Ls; OptimizeLoop2 S s = Inr s'; Q s\<rbrakk> \<Longrightarrow> Q s'"
  shows "Q s'"
  using assms
proof (induction Ls arbitrary: s)
  case Nil
  then show ?case by simp
next
  case (Cons S Ls)
  from Cons.prems(1) obtain s1 where a: "OptimizeLoop2 S s = Inr s1" and b: "OptimizeSubLoops Ls s1 = Inr s'"
    by (cases "OptimizeLoop2 S s") auto
  have q1: "Q s1" using Cons.prems(3) [OF _ a Cons.prems(2)] by simp
  show ?case
  proof (rule Cons.IH [OF b q1])
    fix T t t'
    assume "T \<in> set Ls" "OptimizeLoop2 T t = Inr t'" "Q t"
    then show "Q t'" using Cons.prems(3) [of T t t'] by simp
  qed
qed

lemma OptimizeLoop2_lift:
  assumes step: "\<And>L PH i f st lg f' st' lg'.
      \<lbrakk>\<Phi> f st lg; getLoopPreheader L = Some PH;
       visitInst L PH i (f, st, lg) = Inr (f', st', lg')\<rbrakk>
      \<Longrightarrow> \<Phi> f' st' lg'"
    and bk: "\<And>f st st2 lg.
      \<lbrakk>\<Phi> f st lg; LICMBasic st2 = LICMBasic st; LICMLoadHoist st2 = LICMLoadHoist st\<rbrakk>
      \<Longrightarrow> \<Phi> f st2 lg"
    and run: "OptimizeLoop2 L (f, st, lg) = Inr (f', st', lg')"
    and init: "\<Phi> f st lg"
  shows "\<Phi> f' st' lg'"
  using run init
proof (induction L arbitrary: f st lg f' st' lg')
  case (Loop ph bbs subs)
  show ?case
  proof (cases ph)
    case None
    with Loop.prems have "f' = f" "lg' = lg" "LICMBasic st' = LICMBasic st" "LICMLoadHoist st' = LICMLoadHoist st"
      by auto
    with Loop.prems(2) show ?thesis by (auto intro: bk)
  next
    case (Some PH)
    define Q where "Q = (\<lambda>s. case s of (g, t, l) \<Rightarrow> \<Phi> g t l)"
    from Loop.prems(1) Some obtain f1 st1 lg1
      where a: "OptimizeSubLoops subs (f, st\<lparr>NumLoops := NumLoops st + 1\<rparr>, lg) = Inr (f1, st1, lg1)"
        and b: "forBlocks (Loop ph bbs subs) PH bbs (f1, st1, lg1) = Inr (f', st', lg')"
      by (cases "OptimizeSubLoops subs (f, st\<lparr>NumLoops := NumLoops st + 1\<rparr>, lg)") (auto simp: Let_def)
    have q0: "Q (f, st\<lparr>NumLoops := NumLoops st + 1\<rparr>, lg)"
      unfolding Q_def using Loop.prems(2) by (auto intro: bk)
    have "Q (f1, st1, lg1)"
    proof (rule OptimizeSubLoops_lift [where Q = Q, OF a q0])
      fix S s s'
      assume "S \<in> set subs" "OptimizeLoop2 S s = Inr s'" "Q s"
      then show "Q s'"
        using Loop.IH [of S "fst s" "fst (snd s)" "snd (snd s)" "fst s'" "fst (snd s')" "snd (snd s')"]
        by (auto simp: Q_def split: prod.splits)
    qed
    then have p1: "\<Phi> f1 st1 lg1" by (auto simp: Q_def)
    show "\<Phi> f' st' lg'"
    proof (rule forBlocks_lift [where \<Phi> = \<Phi>, OF _ bk b p1])
      fix i g t l g' t' l'
      assume "\<Phi> g t l" "visitInst (Loop ph bbs subs) PH i (g, t, l) = Inr (g', t', l')"
      then show "\<Phi> g' t' l'" using step [of g t l "Loop ph bbs subs" PH i g' t' l'] Some by simp
    qed
  qed
qed

lemma OptimizeSubLoops_lift2:
  assumes step: "\<And>L PH i f st lg f' st' lg'.
      \<lbrakk>\<Phi> f st lg; getLoopPreheader L = Some PH;
       visitInst L PH i (f, st, lg) = Inr (f', st', lg')\<rbrakk>
      \<Longrightarrow> \<Phi> f' st' lg'"
    and bk: "\<And>f st st2 lg.
      \<lbrakk>\<Phi> f st lg; LICMBasic st2 = LICMBasic st; LICMLoadHoist st2 = LICMLoadHoist st\<rbrakk>
      \<Longrightarrow> \<Phi> f st2 lg"
    and run: "OptimizeSubLoops Ls (f, st, lg) = Inr (f', st', lg')"
    and init: "\<Phi> f st lg"
  shows "\<Phi> f' st' lg'"
proof -
  define Q where "Q = (\<lambda>s. case s of (g, t, l) \<Rightarrow> \<Phi> g t l)"
  have "Q (f', st', lg')"
  proof (rule OptimizeSubLoops_lift [where Q = Q, OF run])
    show "Q (f, st, lg)" using init by (simp add: Q_def)
  next
    fix S s s'
    assume a: "S \<in> set Ls" "OptimizeLoop2 S s = Inr s'" "Q s"
    obtain g t l where s: "s = (g, t, l)" by (cases s)
    obtain g' t' l' where s': "s' = (g', t', l')" by (cases s')
    have "\<Phi> g' t' l'"
      by (rule OptimizeLoop2_lift [where \<Phi> = \<Phi>, OF step bk]) (use a s s' in \<open>auto simp: Q_def\<close>)
    then show "Q s'" by (simp add: Q_def s')
  qed
  then show ?thesis by (simp add: Q_def)
qed

lemma RunLICMBasic_lift:
  assumes fn: "\<And>F LI st lg F' st' lg'.
      \<lbrakk>OptimizeSubLoops LI (F, st, lg) = Inr (F', st', lg'); \<Psi> st lg\<rbrakk> \<Longrightarrow> \<Psi> st' lg' \<and> R F F'"
    and refl: "\<And>F. R F F"
    and run: "RunLICMBasic M (st, lg) = Inr (M', st', lg')"
    and init: "\<Psi> st lg"
  shows "\<Psi> st' lg' \<and> list_all2 (\<lambda>(F, LI) (F', LI'). LI' = LI \<and> R F F') M M'"
  using run init
proof (induction M arbitrary: st lg M')
  case Nil
  then show ?case by simp
next
  case (Cons a M)
  obtain F LI where a: "a = (F, LI)" by (cases a)
  show ?case
  proof (cases "F = []")
    case True
    with Cons.prems(1) a obtain M1 where r: "RunLICMBasic M (st, lg) = Inr (M1, st', lg')"
      and M': "M' = (F, LI) # M1"
      by (cases "RunLICMBasic M (st, lg)") auto
    from Cons.IH [OF r Cons.prems(2)] M' a refl show ?thesis by simp
  next
    case False
    with Cons.prems(1) a obtain F1 st1 lg1 M1
      where o: "OptimizeSubLoops LI (F, st, lg) = Inr (F1, st1, lg1)"
        and r: "RunLICMBasic M (st1, lg1) = Inr (M1, st', lg')"
        and M': "M' = (F1, LI) # M1"
      by (cases "OptimizeSubLoops LI (F, st, lg)"; cases "RunLICMBasic M (snd (projr (OptimizeSubLoops LI (F, st, lg))))")
         auto
    from fn [OF o Cons.prems(2)] have p: "\<Psi> st1 lg1" and rr: "R F F1" by auto
    from Cons.IH [OF r p] M' a rr show ?thesis by simp
  qed
qed

lemma noStoreAmong_iff: "noStoreAmong f a xs = (\<not> list_ex (blocksLoad f a) xs)"
  by (induction xs) (auto simp: blocksLoad_def split: kind.splits)

lemma blocksLoad_storesTo: "storesTo a s \<Longrightarrow> blocksLoad f a s"
  by (auto simp: storesTo_def blocksLoad_def split: kind.splits)

lemma CanMoveOutofLoop_iff:
  "CanMoveOutofLoop L f i a =
     (\<not> isVolatile i \<and> isaGlobalVariable a \<and> \<not> list_ex (blocksLoad f a) (loopInsts L f))"
  by (simp add: CanMoveOutofLoop_def NoPossibleStoresToAddressInLoop_def noStoreAmong_iff)

lemma visitInst_sound:
  assumes "visitInst L PH i (f, st, lg) = Inr (f', st', lg')"
  shows "lg' = lg \<or> (\<exists>r. lg' = lg @ [r] \<and> soundRelocation r)"
proof (cases "NotALoadOrStore i")
  case True
  with assms show ?thesis
    unfolding visitInst_def soundRelocation_def
    by (auto simp: NotALoadOrStore_def split: if_splits sum.splits kind.splits)
next
  case False
  show ?thesis
  proof (cases "kind i")
    case (LoadInst a)
    show ?thesis
    proof (cases "CanMoveOutofLoop L f i a")
      case c: True
      then have g: "isaGlobalVariable a" and n: "\<not> list_ex (blocksLoad f a) (loopInsts L f)"
        by (simp_all add: CanMoveOutofLoop_iff)
      from n have n': "\<not> list_ex (storesTo a) (loopInsts L f)"
        by (auto simp: list_ex_iff dest: blocksLoad_storesTo)
      from g have inv: "isLoopInvariant L f a" by (cases a) auto
      from assms False LoadInst c g n' inv show ?thesis
        unfolding visitInst_def soundRelocation_def AreAllOperandsLoopInvaraint_def operands_def
        by (auto split: sum.splits)
    next
      case False
      with assms LoadInst \<open>\<not> NotALoadOrStore i\<close> show ?thesis
        unfolding visitInst_def by auto
    qed
  qed (use assms False in \<open>auto simp: visitInst_def\<close>)
qed

lemma filter_insertBefore: "\<not> P i \<Longrightarrow> filter P (insertBefore i dst xs) = filter P xs"
  by (induction xs) auto

lemma filter_removeAll_other: "\<not> P i \<Longrightarrow> filter P (removeAll i xs) = filter P xs"
  by (induction xs) auto

lemma onlyInsts_relink:
  assumes "\<not> P i" and "\<not> P i'"
  shows "onlyInsts P (relink i' i dst f) = onlyInsts P f"
  using assms unfolding onlyInsts_def relink_def
  by (induction f) (auto simp: filter_insertBefore filter_removeAll_other)

lemma visitInst_onlyInsts:
  assumes "visitInst L PH i (f, st, lg) = Inr (f', st', lg')" and "\<And>j. P j \<Longrightarrow> \<not> hoistable j"
  shows "onlyInsts P f' = onlyInsts P f"
proof -
  from visitInst_cases [OF assms(1)] consider "f' = f"
    | dst i' where "hoistable i" "alike i i'" "f' = relink i' i dst f"
    by blast
  then show ?thesis
  proof cases
    case 1
    then show ?thesis by simp
  next
    case 2
    from 2(1,2) have "hoistable i'" by (simp add: alike_hoistable)
    with 2(1) assms(2) have "\<not> P i" "\<not> P i'" by blast+
    with 2(3) show ?thesis by (simp add: onlyInsts_relink)
  qed
qed

lemma OptimizeSubLoops_onlyInsts:
  assumes "OptimizeSubLoops LI (F, st, lg) = Inr (F', st', lg')" and "\<And>j. P j \<Longrightarrow> \<not> hoistable j"
  shows "onlyInsts P F' = onlyInsts P F"
proof -
  define \<Phi> where "\<Phi> = (\<lambda>g (t::stats) (l::relocation list). onlyInsts P g = onlyInsts P F)"
  have "\<Phi> F' st' lg'"
  proof (rule OptimizeSubLoops_lift2 [where \<Phi> = \<Phi>, OF _ _ assms(1)])
    show "\<Phi> F st lg" by (simp add: \<Phi>_def)
  next
    fix L PH i f st lg f' st' lg'
    assume "\<Phi> f st lg" "visitInst L PH i (f, st, lg) = Inr (f', st', lg')"
    then show "\<Phi> f' st' lg'" using visitInst_onlyInsts [of L PH i f st lg f' st' lg' P] assms(2)
      by (simp add: \<Phi>_def)
  qed (simp add: \<Phi>_def)
  then show ?thesis by (simp add: \<Phi>_def)
qed

lemma RunLICMBasic_onlyInsts:
  assumes "RunLICMBasic M (st, lg) = Inr (M', st', lg')" and "\<And>j. P j \<Longrightarrow> \<not> hoistable j"
  shows "map (\<lambda>(F, LI). onlyInsts P F) M' = map (\<lambda>(F, LI). onlyInsts P F) M"
proof -
  have "True \<and> list_all2 (\<lambda>(F, LI) (F', LI'). LI' = LI \<and> onlyInsts P F' = onlyInsts P F) M M'"
    by (rule RunLICMBasic_lift [where \<Psi> = "\<lambda>_ _. True", OF _ _ assms(1)])
       (use OptimizeSubLoops_onlyInsts assms(2) in auto)
  then have "list_all2 (\<lambda>(F, LI) (F', LI'). LI' = LI \<and> onlyInsts P F' = onlyInsts P F) M M'"
    by simp
  then show ?thesis
    by (induction M M' rule: list_all2_induct) auto
qed

lemma LoopInvariantCodeMotion_eq: "LoopInvariantCodeMotion M st = RunLICMBasic M (st, [])"
  by (simp add: LoopInvariantCodeMotion_def)

lemma volatileLoad_not_hoistable: "volatileLoad j \<Longrightarrow> \<not> hoistable j"
  by (auto simp: volatileLoad_def hoistable_def split: kind.splits)

lemma nonGlobalLoad_not_hoistable: "nonGlobalLoad j \<Longrightarrow> \<not> hoistable j"
  by (auto simp: nonGlobalLoad_def hoistable_def split: kind.splits)

lemma visitInst_counted:
  assumes "visitInst L PH i (f, st, lg) = Inr (f', st', lg')" and "counted st0 st lg"
  shows "counted st0 st' lg'"
  using visitInst_cases [OF assms(1)] assms(2)
  by (auto simp: counted_def loadsRelocated_def basicRelocated_def)

lemma OptimizeSubLoops_counted:
  assumes "OptimizeSubLoops LI (F, st, lg) = Inr (F', st', lg')" and "counted st0 st lg"
  shows "counted st0 st' lg'"
proof (rule OptimizeSubLoops_lift2 [where \<Phi> = "\<lambda>g t l. counted st0 t l", OF _ _ assms])
  fix L PH i f st lg f' st' lg'
  assume "counted st0 st lg" "visitInst L PH i (f, st, lg) = Inr (f', st', lg')"
  then show "counted st0 st' lg'" using visitInst_counted by blast
qed (simp add: counted_def)

lemma RunLICMBasic_counted:
  assumes "RunLICMBasic M (st, lg) = Inr (M', st', lg')" and "counted st0 st lg"
  shows "counted st0 st' lg'"
proof -
  have "counted st0 st' lg' \<and> list_all2 (\<lambda>(F, LI) (F', LI'). LI' = LI \<and> True) M M'"
    by (rule RunLICMBasic_lift [where \<Psi> = "counted st0" and R = "\<lambda>_ _. True", OF _ _ assms])
       (use OptimizeSubLoops_counted in auto)
  then show ?thesis by simp
qed

lemma OptimizeSubLoops_sound:
  assumes "OptimizeSubLoops LI (F, st, lg) = Inr (F', st', lg')" and "list_all soundRelocation lg"
  shows "list_all soundRelocation lg'"
proof (rule OptimizeSubLoops_lift2 [where \<Phi> = "\<lambda>g t l. list_all soundRelocation l", OF _ _ assms])
  fix L PH i f st lg f' st' lg'
  assume "list_all soundRelocation lg" "visitInst L PH i (f, st, lg) = Inr (f', st', lg')"
  then show "list_all soundRelocation lg'" using visitInst_sound [of L PH i f st lg f' st' lg'] by auto
qed

subsection \<open>Runs on functions whose instructions have distinct addresses\<close>

lemma distinct_instsOf: "distinct (allInsts f) \<Longrightarrow> distinct (instsOf f b)"
  by (induction f) (auto simp: instsOf_def)

lemma distinct_addr_relink:
  assumes d: "distinct (map addr (allInsts f))" and i: "i \<in> set (allInsts f)"
    and dst: "dst \<in> set (allInsts f)" and ne: "i \<noteq> dst" and a: "addr i' = addr i"
  shows "distinct (map addr (allInsts (relink i' i dst f)))"
proof -
  have d': "distinct (allInsts f)" using d by (simp add: distinct_map)
  have m: "mset (allInsts (relink i' i dst f)) = mset (allInsts f) - {#i#} + {#i'#}"
    using d' i dst ne by (rule mset_allInsts_relink)
  have "image_mset addr (mset (allInsts f) - {#i#}) = image_mset addr (mset (allInsts f)) - {#addr i#}"
    using i by (simp add: image_mset_Diff)
  with m a have "image_mset addr (mset (allInsts (relink i' i dst f)))
      = image_mset addr (mset (allInsts f)) - {#addr i#} + {#addr i#}"
    by simp
  also have "\<dots> = image_mset addr (mset (allInsts f))" using i by simp
  finally have "mset (map addr (allInsts (relink i' i dst f))) = mset (map addr (allInsts f))"
    by simp
  from mset_eq_imp_distinct_iff [OF this] d show ?thesis by simp
qed

lemma visitInst_distinct:
  assumes v: "visitInst L PH i (f, st, lg) = Inr (f', st', lg')"
    and d: "distinct (map addr (allInsts f))" and i: "i \<in> set (allInsts f)"
  shows "distinct (map addr (allInsts f'))"
proof -
  from visitInst_cases [OF v] consider "f' = f"
    | dst p i' where "getTerminator f p = Some dst" "hoistable i" "alike i i'" "f' = relink i' i dst f"
    by blast
  then show ?thesis
  proof cases
    case 1
    with d show ?thesis by simp
  next
    case 2
    have dd: "dst \<in> set (allInsts f)"
      using getTerminator_SomeD(2) [OF 2(1)] instsOf_subset by auto
    have ne: "i \<noteq> dst"
      using getTerminator_SomeD(1) [OF 2(1)] hoistable_not_terminator [OF 2(2)] by auto
    from distinct_addr_relink [OF d i dd ne alike_fields(1) [OF 2(3)]] 2(4) show ?thesis by simp
  qed
qed

lemma visitInst_map_fst:
  assumes "visitInst L PH i (f, st, lg) = Inr (f', st', lg')"
  shows "map fst f' = map fst f"
  using visitInst_cases [OF assms] by (auto simp: map_fst_relink)

lemma drainWorklist_wlift:
  assumes step: "\<And>i f st lg f' st' lg'.
      \<lbrakk>\<Phi> f st lg; distinct (map addr (allInsts f)); i \<in> set (allInsts f);
       visitInst L PH i (f, st, lg) = Inr (f', st', lg')\<rbrakk> \<Longrightarrow> \<Phi> f' st' lg'"
    and run: "drainWorklist L PH wl (f, st, lg) = Inr (f', st', lg')"
    and init: "\<Phi> f st lg"
    and d: "distinct (map addr (allInsts f))"
    and wl: "set wl \<subseteq> set (allInsts f)" and dw: "distinct wl"
  shows "\<Phi> f' st' lg' \<and> distinct (map addr (allInsts f'))"
  using run init d wl dw
proof (induction wl arbitrary: f st lg)
  case Nil
  then show ?case by simp
next
  case (Cons i wl)
  from Cons.prems(1) obtain f1 st1 lg1
    where v: "visitInst L PH i (f, st, lg) = Inr (f1, st1, lg1)"
      and r: "drainWorklist L PH wl (f1, st1, lg1) = Inr (f', st', lg')"
    by (cases "visitInst L PH i (f, st, lg)") auto
  from Cons.prems(4) have i: "i \<in> set (allInsts f)" by simp
  have p1: "\<Phi> f1 st1 lg1" using Cons.prems(2,3) i v by (rule step)
  have d1: "distinct (map addr (allInsts f1))" using v Cons.prems(3) i by (rule visitInst_distinct)
  have w1: "set wl \<subseteq> set (allInsts f1)"
    using Cons.prems(4,5) visitInst_others_remain [OF v] by auto
  from Cons.prems(5) have "distinct wl" by simp
  from Cons.IH [OF r p1 d1 w1 this] show ?case .
qed

lemma forBlocks_wlift:
  assumes step: "\<And>i f st lg f' st' lg'.
      \<lbrakk>\<Phi> f st lg; distinct (map addr (allInsts f)); i \<in> set (allInsts f);
       visitInst L PH i (f, st, lg) = Inr (f', st', lg')\<rbrakk> \<Longrightarrow> \<Phi> f' st' lg'"
    and bk: "\<And>f st st2 lg.
      \<lbrakk>\<Phi> f st lg; LICMBasic st2 = LICMBasic st; LICMLoadHoist st2 = LICMLoadHoist st\<rbrakk>
      \<Longrightarrow> \<Phi> f st2 lg"
    and run: "forBlocks L PH bbs (f, st, lg) = Inr (f', st', lg')"
    and init: "\<Phi> f st lg"
    and d: "distinct (map addr (allInsts f))"
  shows "\<Phi> f' st' lg' \<and> distinct (map addr (allInsts f'))"
  using run init d
proof (induction bbs arbitrary: f st lg)
  case Nil
  then show ?case by simp
next
  case (Cons bb bbs)
  define st0 where "st0 = updateStats (list_ex isaLoadInst (instsOf f bb))
      (list_ex isaStoreInst (instsOf f bb)) (list_ex isaCallInst (instsOf f bb)) st"
  from Cons.prems(1) obtain f1 st1 lg1
    where r: "drainWorklist L PH (sort_key addr (instsOf f bb)) (f, st0, lg) = Inr (f1, st1, lg1)"
      and r2: "forBlocks L PH bbs (f1, st1, lg1) = Inr (f', st', lg')"
    unfolding st0_def
    by (cases "drainWorklist L PH (sort_key addr (instsOf f bb)) (f, updateStats (list_ex isaLoadInst (instsOf f bb))
      (list_ex isaStoreInst (instsOf f bb)) (list_ex isaCallInst (instsOf f bb)) st, lg)") (auto simp: Let_def)
  have p0: "\<Phi> f st0 lg"
    using Cons.prems(2) unfolding st0_def by (rule bk) (auto simp: updateStats_def)
  have sub: "set (sort_key addr (instsOf f bb)) \<subseteq> set (allInsts f)"
    using instsOf_subset by simp
  have "distinct (allInsts f)" using Cons.prems(3) by (simp add: distinct_map)
  then have dw: "distinct (sort_key addr (instsOf f bb))"
    by (simp add: distinct_instsOf)
  have "\<Phi> f1 st1 lg1 \<and> distinct (map addr (allInsts f1))"
    by (rule drainWorklist_wlift [where \<Phi> = \<Phi>, OF _ r p0 Cons.prems(3) sub dw]) (rule step)
  with Cons.IH [OF r2] show ?case by simp
qed

lemma OptimizeLoop2_wlift:
  assumes step: "\<And>L PH i f st lg f' st' lg'.
      \<lbrakk>\<Phi> f st lg; getLoopPreheader L = Some PH; distinct (map addr (allInsts f));
       i \<in> set (allInsts f); visitInst L PH i (f, st, lg) = Inr (f', st', lg')\<rbrakk>
      \<Longrightarrow> \<Phi> f' st' lg'"
    and bk: "\<And>f st st2 lg.
      \<lbrakk>\<Phi> f st lg; LICMBasic st2 = LICMBasic st; LICMLoadHoist st2 = LICMLoadHoist st\<rbrakk>
      \<Longrightarrow> \<Phi> f st2 lg"
    and run: "OptimizeLoop2 L (f, st, lg) = Inr (f', st', lg')"
    and init: "\<Phi> f st lg"
    and d: "distinct (map addr (allInsts f))"
  shows "\<Phi> f' st' lg' \<and> distinct (map addr (allInsts f'))"
  using run init d
proof (induction L arbitrary: f st lg f' st' lg')
  case (Loop ph bbs subs)
  show ?case
  proof (cases ph)
    case None
    with Loop.prems have "f' = f" "lg' = lg" "LICMBasic st' = LICMBasic st" "LICMLoadHoist st' = LICMLoadHoist st"
      by auto
    with Loop.prems(2,3) show ?thesis by (auto intro: bk)
  next
    case (Some PH)
    define Q where "Q = (\<lambda>s. case s of (g, t, l) \<Rightarrow> \<Phi> g t l \<and> distinct (map addr (allInsts g)))"
    from Loop.prems(1) Some obtain f1 st1 lg1
      where a: "OptimizeSubLoops subs (f, st\<lparr>NumLoops := NumLoops st + 1\<rparr>, lg) = Inr (f1, st1, lg1)"
        and b: "forBlocks (Loop ph bbs subs) PH bbs (f1, st1, lg1) = Inr (f', st', lg')"
      by (cases "OptimizeSubLoops subs (f, st\<lparr>NumLoops := NumLoops st + 1\<rparr>, lg)") (auto simp: Let_def)
    have q0: "Q (f, st\<lparr>NumLoops := NumLoops st + 1\<rparr>, lg)"
      unfolding Q_def using Loop.prems(2,3) by (auto intro: bk)
    have "Q (f1, st1, lg1)"
    proof (rule OptimizeSubLoops_lift [where Q = Q, OF a q0])
      fix S s s'
      assume "S \<in> set subs" "OptimizeLoop2 S s = Inr s'" "Q s"
      then show "Q s'"
        using Loop.IH [of S "fst s" "fst (snd s)" "snd (snd s)" "fst s'" "fst (snd s')" "snd (snd s')"]
        by (auto simp: Q_def split: prod.splits)
    qed
    then have p1: "\<Phi> f1 st1 lg1" and d1: "distinct (map addr (allInsts f1))"
      by (auto simp: Q_def)
    show ?thesis
    proof (rule forBlocks_wlift [where \<Phi> = \<Phi>, OF _ bk b p1 d1])
      fix i g t l g' t' l'
      assume "\<Phi> g t l" "distinct (map addr (allInsts g))" "i \<in> set (allInsts g)"
        "visitInst (Loop ph bbs subs) PH i (g, t, l) = Inr (g', t', l')"
      then show "\<Phi> g' t' l'" using step [of g t l "Loop ph bbs subs" PH i g' t' l'] Some by simp
    qed
  qed
qed

lemma OptimizeSubLoops_wlift2:
  assumes step: "\<And>L PH i f st lg f' st' lg'.
      \<lbrakk>\<Phi> f st lg; getLoopPreheader L = Some PH; distinct (map addr (allInsts f));
       i \<in> set (allInsts f); visitInst L PH i (f, st, lg) = Inr (f', st', lg')\<rbrakk>
      \<Longrightarrow> \<Phi> f' st' lg'"
    and bk: "\<And>f st st2 lg.
      \<lbrakk>\<Phi> f st lg; LICMBasic st2 = LICMBasic st; LICMLoadHoist st2 = LICMLoadHoist st\<rbrakk>
      \<Longrightarrow> \<Phi> f st2 lg"
    and run: "OptimizeSubLoops Ls (f, st, lg) = Inr (f', st', lg')"
    and init: "\<Phi> f st lg"
    and d: "distinct (map addr (allInsts f))"
  shows "\<Phi> f' st' lg' \<and> distinct (map addr (allInsts f'))"
proof -
  define Q where "Q = (\<lambda>s. case s of (g, t, l) \<Rightarrow> \<Phi> g t l \<and> distinct (map addr (allInsts g)))"
  have "Q (f', st', lg')"
  proof (rule OptimizeSubLoops_lift [where Q = Q, OF run])
    show "Q (f, st, lg)" using init d by (simp add: Q_def)
  next
    fix S s s'
    assume a: "S \<in> set Ls" "OptimizeLoop2 S s = Inr s'" "Q s"
    obtain g t l where s: "s = (g, t, l)" by (cases s)
    obtain g' t' l' where s': "s' = (g', t', l')" by (cases s')
    have "\<Phi> g' t' l' \<and> distinct (map addr (allInsts g'))"
      by (rule OptimizeLoop2_wlift [where \<Phi> = \<Phi>, OF step bk]) (use a s s' in \<open>auto simp: Q_def\<close>)
    then show "Q s'" by (simp add: Q_def s')
  qed
  then show ?thesis by (simp add: Q_def)
qed

lemma OptimizeSubLoops_map_fst:
  assumes "OptimizeSubLoops LI (F, st, lg) = Inr (F', st', lg')"
  shows "map fst F' = map fst F"
proof (rule OptimizeSubLoops_lift2 [where \<Phi> = "\<lambda>g t l. map fst g = map fst F", OF _ _ assms])
  fix L PH i f st lg f' st' lg'
  assume "map fst f = map fst F" "visitInst L PH i (f, st, lg) = Inr (f', st', lg')"
  then show "map fst f' = map fst F" using visitInst_map_fst by fastforce
qed simp_all

lemma OptimizeSubLoops_wfFunc:
  assumes "OptimizeSubLoops LI (F, st, lg) = Inr (F', st', lg')" and "wfFunc F"
  shows "wfFunc F'"
proof -
  from assms(2) have d: "distinct (map addr (allInsts F))" by (simp add: wfFunc_def)
  have "True \<and> distinct (map addr (allInsts F'))"
    by (rule OptimizeSubLoops_wlift2 [where \<Phi> = "\<lambda>g t l. True", OF _ _ assms(1) _ d]) simp_all
  with OptimizeSubLoops_map_fst [OF assms(1)] assms(2) show ?thesis by (simp add: wfFunc_def)
qed

subsection \<open>Runs on the example functions\<close>

lemma run_exA:
  "LoopInvariantCodeMotion [(exA, [loopA])] noStats = Inr ([(exA_once, [loopA])], statsA, logA)"
  by code_simp

lemma run_exC:
  "LoopInvariantCodeMotion [(exC, [loopA])] noStats = Inr ([(exC_once, [loopA])], statsC, logC)"
  by code_simp


subsection \<open>Where a moved instruction lands\<close>

lemma instsOf_unlink: "instsOf (unlink i f) b = removeAll i (instsOf f b)"
  by (induction f) (auto simp: instsOf_def)

lemma instsOf_linkBefore: "instsOf (linkBefore i dst f) b = insertBefore i dst (instsOf f b)"
  by (induction f) (auto simp: instsOf_def)

lemma instsOf_relink:
  "instsOf (relink i' i dst f) b = insertBefore i' dst (removeAll i (instsOf f b))"
  by (simp add: relink_def instsOf_linkBefore instsOf_unlink)

lemma insertBefore_absent: "dst \<notin> set xs \<Longrightarrow> insertBefore i dst xs = xs"
  by (induction xs) auto

lemma insertBefore_append:
  "insertBefore i dst (xs @ ys) = insertBefore i dst xs @ insertBefore i dst ys"
  by (induction xs) auto

lemma insertBefore_last:
  "dst \<notin> set xs \<Longrightarrow> insertBefore i dst (xs @ [dst]) = xs @ [i, dst]"
  by (simp add: insertBefore_append insertBefore_absent)

lemma getTerminator_last:
  "instsOf f PH = xs @ [dst] \<Longrightarrow> isTerminator dst \<Longrightarrow> getTerminator f PH = Some dst"
  by (simp add: getTerminator_def)

subsection \<open>A run on a quiet module\<close>

lemma visitInst_not_accepted:
  assumes "getLoopPreheader L = Some PH" and "\<not> accepts L f i"
  shows "visitInst L PH i (f, st, lg) = Inr (f, st, lg)"
  using assms
  by (auto simp: visitInst_def accepts_def makeLoopInvariant_def AreAllOperandsLoopInvaraint_def
      NotALoadOrStore_def split: kind.splits)

lemma drainWorklist_quiet:
  assumes "getLoopPreheader L = Some PH" and "list_all (\<lambda>i. \<not> accepts L f i) wl"
  shows "drainWorklist L PH wl (f, st, lg) = Inr (f, st, lg)"
  using assms(2) by (induction wl) (simp_all add: visitInst_not_accepted [OF assms(1)])

lemma forBlocks_quiet:
  assumes "getLoopPreheader L = Some PH"
    and "list_all (\<lambda>i. \<not> accepts L f i) (concat (map (instsOf f) bbs))"
  shows "\<exists>st'. forBlocks L PH bbs (f, st, lg) = Inr (f, st', lg)"
  using assms(2)
proof (induction bbs arbitrary: st)
  case Nil
  then show ?case by simp
next
  case (Cons bb bbs)
  have "list_all (\<lambda>i. \<not> accepts L f i) (sort_key addr (instsOf f bb))"
    using Cons.prems by (simp add: list_all_iff)
  then have "drainWorklist L PH (sort_key addr (instsOf f bb)) (f, st1, lg) = Inr (f, st1, lg)" for st1
    by (rule drainWorklist_quiet [OF assms(1)])
  moreover have "list_all (\<lambda>i. \<not> accepts L f i) (concat (map (instsOf f) bbs))"
    using Cons.prems by simp
  ultimately show ?case using Cons.IH by (simp add: Let_def)
qed

lemma OptimizeLoop2_quiet:
  "quietLoop L f \<Longrightarrow> \<exists>st'. OptimizeLoop2 L (f, st, lg) = Inr (f, st', lg)"
  "quietLoops Ls f \<Longrightarrow> \<exists>st'. OptimizeSubLoops Ls (f, st, lg) = Inr (f, st', lg)"
proof (induction L f and Ls f arbitrary: st and st rule: quietLoop_quietLoops.induct)
  case (1 preheader bbs subloops f)
  show ?case
  proof (cases preheader)
    case None
    then show ?thesis by simp
  next
    case (Some PH)
    with "1.prems" have q: "quietLoops subloops f"
      and a: "list_all (\<lambda>i. \<not> accepts (Loop preheader bbs subloops) f i) (concat (map (instsOf f) bbs))"
      by (simp_all add: loopInsts_def)
    from "1.IH" [OF Some q] obtain st1
      where s: "OptimizeSubLoops subloops (f, st\<lparr>NumLoops := NumLoops st + 1\<rparr>, lg) = Inr (f, st1, lg)"
      by blast
    have "getLoopPreheader (Loop preheader bbs subloops) = Some PH" using Some by simp
    from forBlocks_quiet [OF this a] obtain st2
      where "forBlocks (Loop preheader bbs subloops) PH bbs (f, st1, lg) = Inr (f, st2, lg)"
      by blast
    with s Some show ?thesis by (simp add: Let_def)
  qed
next
  case (2 f)
  then show ?case by simp
next
  case (3 L Ls f)
  from "3.prems" have "quietLoop L f" "quietLoops Ls f" by simp_all
  with "3.IH" obtain st1 where a: "OptimizeLoop2 L (f, st, lg) = Inr (f, st1, lg)" by blast
  from "3.IH"(2) [OF \<open>quietLoops Ls f\<close>] obtain st2
    where "OptimizeSubLoops Ls (f, st1, lg) = Inr (f, st2, lg)" by blast
  with a show ?case by simp
qed

lemma RunLICMBasic_quiet:
  "quietModule M \<Longrightarrow> \<exists>st'. RunLICMBasic M (st, lg) = Inr (M, st', lg)"
proof (induction M arbitrary: st)
  case Nil
  then show ?case by simp
next
  case (Cons a M)
  obtain F LI where a: "a = (F, LI)" by (cases a)
  from Cons.prems a have q: "quietLoops LI F" and qm: "quietModule M"
    by (simp_all add: quietModule_def)
  from OptimizeLoop2_quiet(2) [OF q] obtain st1
    where o: "OptimizeSubLoops LI (F, st, lg) = Inr (F, st1, lg)" by blast
  from Cons.IH [OF qm] obtain st2 where "RunLICMBasic M (st1, lg) = Inr (M, st2, lg)" by blast
  moreover from Cons.IH [OF qm] obtain st3 where "RunLICMBasic M (st, lg) = Inr (M, st3, lg)" by blast
  ultimately show ?case using a o by (cases "F = []") auto
qed

subsection \<open>Well-formed functions: where an instruction is\<close>

lemma wfFunc_Cons:
  "wfFunc ((b, ins) # f) \<Longrightarrow> wfFunc f"
  by (auto simp: wfFunc_def)

lemma instsOf_Cons:
  "instsOf ((b', ins) # f) b = (if b = b' then ins else instsOf f b)"
  by (simp add: instsOf_def)

lemma instsOf_Nil [simp]: "instsOf [] b = []"
  by (simp add: instsOf_def)

lemma instsOf_absent: "b \<notin> fst ` set f \<Longrightarrow> instsOf f b = []"
  by (induction f) (auto simp: instsOf_Cons)

lemma getParent_of_member:
  assumes "wfFunc f" and "i \<in> set (instsOf f b)"
  shows "getParent f (addr i) = Some b"
  using assms
proof (induction f)
  case Nil
  then show ?case by simp
next
  case (Cons p f)
  obtain b' ins where p: "p = (b', ins)" by (cases p)
  show ?case
  proof (cases "b = b'")
    case True
    with Cons.prems p show ?thesis by (simp add: instsOf_Cons)
  next
    case False
    with Cons.prems p have m: "i \<in> set (instsOf f b)" by (simp add: instsOf_Cons)
    then have "i \<in> set (allInsts f)" using instsOf_subset by blast
    with Cons.prems(1) p have "addr i \<notin> addr ` set ins" by (auto simp: wfFunc_def)
    moreover have "getParent f (addr i) = Some b"
      using Cons.IH [OF _ m] Cons.prems(1) p wfFunc_Cons by blast
    ultimately show ?thesis using p by simp
  qed
qed

lemma getParent_SomeD:
  assumes "distinct (map fst f)" and "getParent f a = Some b"
  shows "\<exists>i \<in> set (instsOf f b). addr i = a"
  using assms
proof (induction f)
  case Nil
  then show ?case by simp
next
  case (Cons p f)
  obtain b' ins where p: "p = (b', ins)" by (cases p)
  show ?case
  proof (cases "a \<in> addr ` set ins")
    case True
    with Cons.prems p show ?thesis by (auto simp: instsOf_Cons)
  next
    case False
    with Cons.prems p have g: "getParent f a = Some b" by simp
    with Cons.IH Cons.prems(1) obtain i where i: "i \<in> set (instsOf f b)" "addr i = a" by auto
    have "b \<noteq> b'"
    proof
      assume "b = b'"
      with Cons.prems(1) p have "b \<notin> fst ` set f" by simp
      then have "instsOf f b = []" by (rule instsOf_absent)
      with i show False by simp
    qed
    with i p show ?thesis by (auto simp: instsOf_Cons)
  qed
qed

lemma getParent_None_iff: "getParent f a = None \<longleftrightarrow> a \<notin> addr ` set (allInsts f)"
  by (induction f) (auto split: if_splits)

lemma set_insertBefore:
  "set (insertBefore i dst xs) = (if dst \<in> set xs then insert i (set xs) else set xs)"
  by (induction xs) auto

lemma wfFunc_same_addr:
  assumes "wfFunc f" and "i \<in> set (allInsts f)" and "j \<in> set (allInsts f)" and "addr i = addr j"
  shows "i = j"
  using assms by (auto simp: wfFunc_def distinct_map dest: inj_onD)

lemma set_insertBefore_removeAll:
  "set (insertBefore i' dst (removeAll i xs)) =
     (if dst \<in> set xs \<and> dst \<noteq> i then insert i' (set xs - {i}) else set xs - {i})"
  by (auto simp: set_insertBefore)

lemma wfFunc_relink:
  assumes "wfFunc f" and "i \<in> set (allInsts f)" and "dst \<in> set (allInsts f)" and "i \<noteq> dst"
    and "addr i' = addr i"
  shows "wfFunc (relink i' i dst f)"
  using assms distinct_addr_relink [of f i dst i'] by (simp add: wfFunc_def map_fst_relink)

lemma getParent_relink:
  assumes wf: "wfFunc f" and i: "i \<in> set (allInsts f)" and dst: "dst \<in> set (instsOf f PH)"
    and ne: "i \<noteq> dst" and a: "addr i' = addr i"
  shows "getParent (relink i' i dst f) a = (if a = addr i then Some PH else getParent f a)"
proof -
  let ?f' = "relink i' i dst f"
  have dst': "dst \<in> set (allInsts f)" using dst instsOf_subset by blast
  have wf': "wfFunc ?f'" using wf i dst' ne a by (rule wfFunc_relink)
  have s: "set (allInsts ?f') = insert i' (set (allInsts f) - {i})"
    using dst' ne by (rule set_allInsts_relink)
  have mem: "set (instsOf ?f' b) =
      (if dst \<in> set (instsOf f b) then insert i' (set (instsOf f b) - {i}) else set (instsOf f b) - {i})" for b
    using ne by (auto simp: instsOf_relink set_insertBefore_removeAll)
  show ?thesis
  proof (cases "a = addr i")
    case True
    have "i' \<in> set (instsOf ?f' PH)" using dst by (simp add: mem)
    with wf' True a show ?thesis using getParent_of_member [of ?f' i' PH] by simp
  next
    case False
    show ?thesis
    proof (cases "getParent f a")
      case None
      then have "a \<notin> addr ` set (allInsts f)" by (simp add: getParent_None_iff)
      with False a have "a \<notin> addr ` set (allInsts ?f')" unfolding s by auto
      then have "getParent ?f' a = None" by (simp add: getParent_None_iff)
      with None False show ?thesis by simp
    next
      case (Some b)
      from wf have "distinct (map fst f)" by (simp add: wfFunc_def)
      from getParent_SomeD [OF this Some] obtain j where j: "j \<in> set (instsOf f b)" "addr j = a"
        by blast
      with False have "j \<noteq> i" by auto
      with j have "j \<in> set (instsOf ?f' b)" by (auto simp: mem)
      with wf' j(2) have "getParent ?f' a = Some b" using getParent_of_member by blast
      with Some False show ?thesis by simp
    qed
  qed
qed

lemma stable_refl: "wfFunc f \<Longrightarrow> stable L f f"
  by (simp add: stable_def)

lemma removeAll_snoc_other: "i \<noteq> t \<Longrightarrow> removeAll i (xs @ [t]) = removeAll i xs @ [t]"
  by simp

lemma getTerminator_relink:
  assumes "getTerminator f p = Some t" and "\<not> isTerminator i" and "\<not> isTerminator i'"
  shows "getTerminator (relink i' i dst f) p = Some t"
proof -
  from assms(1) have t: "isTerminator t" and e: "instsOf f p = butlast (instsOf f p) @ [t]"
    by (rule getTerminator_SomeD)+
  from t assms(2) have ne: "i \<noteq> t" by auto
  define xs where "xs = butlast (instsOf f p)"
  have "instsOf (relink i' i dst f) p = insertBefore i' dst (removeAll i xs @ [t])"
    using e ne unfolding xs_def by (metis instsOf_relink removeAll_snoc_other)
  then have "instsOf (relink i' i dst f) p =
      insertBefore i' dst (removeAll i xs) @ (if t = dst then [i', t] else [t])"
    by (simp add: insertBefore_append)
  with t show ?thesis by (auto simp: getTerminator_def)
qed

lemma find_addr_unique:
  assumes "distinct (map addr xs)" and "x \<in> set xs"
  shows "find (\<lambda>i. addr i = addr x) xs = Some x"
  using assms by (induction xs) (auto simp: image_iff)

lemma instAt_member:
  "wfFunc f \<Longrightarrow> x \<in> set (allInsts f) \<Longrightarrow> instAt f (addr x) = Some x"
  by (simp add: instAt_def wfFunc_def find_addr_unique)

lemma instAt_None_iff: "instAt f a = None \<longleftrightarrow> a \<notin> addr ` set (allInsts f)"
  by (auto simp: instAt_def find_None_iff)

lemma instAt_SomeD: "instAt f a = Some x \<Longrightarrow> x \<in> set (allInsts f) \<and> addr x = a"
  unfolding instAt_def by (auto simp: find_Some_iff)

lemma instAt_relink_kind:
  assumes wf: "wfFunc f" and i: "i \<in> set (allInsts f)" and dst: "dst \<in> set (allInsts f)"
    and ne: "i \<noteq> dst" and al: "alike i i'"
  shows "map_option kind (instAt (relink i' i dst f) a) = map_option kind (instAt f a)"
proof -
  let ?f' = "relink i' i dst f"
  have a: "addr i' = addr i" and k: "kind i' = kind i" using al by (rule alike_fields)+
  have wf': "wfFunc ?f'" using wf i dst ne a by (rule wfFunc_relink)
  have s: "set (allInsts ?f') = insert i' (set (allInsts f) - {i})"
    using dst ne by (rule set_allInsts_relink)
  show ?thesis
  proof (cases "instAt f a")
    case None
    then have "a \<notin> addr ` set (allInsts f)" by (simp add: instAt_None_iff)
    with i a have "a \<notin> addr ` set (allInsts ?f')" unfolding s by auto
    then have "instAt ?f' a = None" by (simp add: instAt_None_iff)
    with None show ?thesis by simp
  next
    case (Some x)
    then have x: "x \<in> set (allInsts f)" "addr x = a" using instAt_SomeD by blast+
    show ?thesis
    proof (cases "x = i")
      case True
      have "i' \<in> set (allInsts ?f')" by (simp add: s)
      with wf' have "instAt ?f' (addr i') = Some i'" by (rule instAt_member)
      with True x a k Some show ?thesis by simp
    next
      case False
      with x have "x \<in> set (allInsts ?f')" by (simp add: s)
      with wf' have "instAt ?f' (addr x) = Some x" by (rule instAt_member)
      with x Some show ?thesis by simp
    qed
  qed
qed

lemma isaAllocaInst_kind:
  "map_option kind (instAt g a) = map_option kind (instAt f a) \<Longrightarrow>
     isaAllocaInst g (Result a) = isaAllocaInst f (Result a)"
  by (cases "instAt g a"; cases "instAt f a") auto

lemma isaAllocaInst_relink:
  assumes "wfFunc f" and "i \<in> set (allInsts f)" and "dst \<in> set (allInsts f)"
    and "i \<noteq> dst" and "alike i i'"
  shows "isaAllocaInst (relink i' i dst f) v = isaAllocaInst f v"
proof (cases v)
  case (Result a)
  with isaAllocaInst_kind [OF instAt_relink_kind [OF assms, of a]] show ?thesis by simp
qed simp_all

lemma in_one_block:
  assumes "wfFunc f" and "x \<in> set (instsOf f b)" and "x \<in> set (instsOf f b')"
  shows "b = b'"
  using getParent_of_member [OF assms(1,2)] getParent_of_member [OF assms(1,3)] by simp

lemma stable_relink:
  assumes st: "stable L f0 f" and i: "i \<in> set (allInsts f)" and h: "hoistable i"
    and al: "alike i i'"
    and t: "getTerminator f PH = Some dst" and ph: "PH \<notin> set (loopBlocks L)"
  shows "stable L f0 (relink i' i dst f)"
proof -
  let ?f' = "relink i' i dst f"
  from st have wf: "wfFunc f" and wf0: "wfFunc f0" by (simp_all add: stable_def)
  have a: "addr i' = addr i" using al by (rule alike_fields)
  have d: "dst \<in> set (instsOf f PH)" using t by (rule getTerminator_SomeD)
  then have d': "dst \<in> set (allInsts f)" using instsOf_subset by blast
  have nt: "\<not> isTerminator i" using h by (rule hoistable_not_terminator)
  then have nt': "\<not> isTerminator i'" using alike_isTerminator [OF al] by simp
  have ne: "i \<noteq> dst" using getTerminator_SomeD(1) [OF t] nt by auto
  have ns: "\<not> isaStoreInst i" using h by (rule hoistable_not_store)
  then have ns': "\<not> isaStoreInst i'" using alike_isaStoreInst [OF al] by simp
  have 1: "wfFunc ?f'" using wf i d' ne a by (rule wfFunc_relink)
  have 3: "contains L ?f' x \<longrightarrow> contains L f0 x" for x
    using st ph getParent_relink [OF wf i d ne a, of x]
    by (auto simp: stable_def contains_def split: if_splits)
  have 2: "set (instsOf ?f' b) \<subseteq> set (instsOf f0 b)" if b: "b \<in> set (loopBlocks L)" for b
  proof -
    from b ph have "b \<noteq> PH" by auto
    with d have "dst \<notin> set (instsOf f b)" using in_one_block [OF wf] by blast
    then have "set (instsOf ?f' b) \<subseteq> set (instsOf f b)"
      by (auto simp: instsOf_relink set_insertBefore_removeAll)
    with st b show ?thesis by (auto simp: stable_def)
  qed
  have 4: "filter isaStoreInst (instsOf ?f' b) = filter isaStoreInst (instsOf f0 b)" for b
    using st ns ns' by (simp add: stable_def instsOf_relink filter_insertBefore filter_removeAll_other)
  have 5: "getTerminator f0 p = Some u \<longrightarrow> getTerminator ?f' p = Some u" for p u
    using st nt nt' by (auto simp: stable_def intro: getTerminator_relink)
  have 6: "isaAllocaInst ?f' v = isaAllocaInst f0 v" for v
    using st isaAllocaInst_relink [OF wf i d' ne al, of v] by (simp add: stable_def)
  from wf0 1 2 3 4 5 6 show ?thesis unfolding stable_def by blast
qed

lemma visitInst_stable:
  assumes "getLoopPreheader L = Some PH" and "PH \<notin> set (loopBlocks L)"
    and "stable L f0 f" and "j \<in> set (allInsts f)"
    and "visitInst L PH j (f, st, lg) = Inr (f', st', lg')"
  shows "stable L f0 f'"
proof -
  from visitInst_cases [OF assms(5)] assms(1) consider "f' = f"
    | dst j' where "getTerminator f PH = Some dst" "hoistable j" "alike j j'" "f' = relink j' j dst f"
    by auto
  then show ?thesis
  proof cases
    case 1
    with assms(3) show ?thesis by simp
  next
    case 2
    with stable_relink [OF assms(3,4) 2(2,3,1) assms(2)] show ?thesis by simp
  qed
qed

lemma visitInst_other_parent:
  assumes "getLoopPreheader L = Some PH" and "wfFunc f" and "j \<in> set (allInsts f)"
    and "visitInst L PH j (f, st, lg) = Inr (f', st', lg')" and "a \<noteq> addr j"
  shows "getParent f' a = getParent f a"
proof -
  from visitInst_cases [OF assms(4)] assms(1) consider "f' = f"
    | dst j' where "getTerminator f PH = Some dst" "hoistable j" "alike j j'" "f' = relink j' j dst f"
    by auto
  then show ?thesis
  proof cases
    case 1
    then show ?thesis by simp
  next
    case 2
    have d: "dst \<in> set (instsOf f PH)" using 2(1) by (rule getTerminator_SomeD)
    have "j \<noteq> dst"
      using getTerminator_SomeD(1) [OF 2(1)] hoistable_not_terminator [OF 2(2)] by auto
    from getParent_relink [OF assms(2,3) d this alike_fields(1) [OF 2(3)], of a] 2(4) assms(5)
    show ?thesis by simp
  qed
qed

lemma visitInst_self_parent:
  assumes "getLoopPreheader L = Some PH" and "wfFunc f" and "j \<in> set (allInsts f)"
    and "visitInst L PH j (f, st, lg) = Inr (f', st', lg')"
  shows "f' = f \<or> getParent f' (addr j) = Some PH"
proof -
  from visitInst_cases [OF assms(4)] assms(1) consider "f' = f"
    | dst j' where "getTerminator f PH = Some dst" "hoistable j" "alike j j'" "f' = relink j' j dst f"
    by auto
  then show ?thesis
  proof cases
    case 1
    then show ?thesis by simp
  next
    case 2
    have d: "dst \<in> set (instsOf f PH)" using 2(1) by (rule getTerminator_SomeD)
    have "j \<noteq> dst"
      using getTerminator_SomeD(1) [OF 2(1)] hoistable_not_terminator [OF 2(2)] by auto
    from getParent_relink [OF assms(2,3) d this alike_fields(1) [OF 2(3)], of "addr j"] 2(4)
    show ?thesis by simp
  qed
qed

lemma accepts_hoistable: "accepts L f i \<Longrightarrow> hoistable i"
  by (auto simp: accepts_def hoistable_def CanMoveOutofLoop_def NotALoadOrStore_def
      split: kind.splits if_splits)

lemma visitInst_accepted:
  assumes "getLoopPreheader L = Some PH" and "accepts L f i"
    and "visitInst L PH i (f, st, lg) = Inr (f', st', lg')"
  shows "\<exists>dst i'. getTerminator f PH = Some dst \<and> alike i i' \<and> (isaLoadInst i \<longrightarrow> i' = i) \<and>
           (i' = i \<or> i' = clearMetadata i) \<and> f' = relink i' i dst f \<and>
           lg' = lg @ [\<lparr>moved = i, outOf = L, placement = f\<rparr>]"
proof -
  have "lg' \<noteq> lg"
    using assms
    by (auto simp: visitInst_def accepts_def makeLoopInvariant_def AreAllOperandsLoopInvaraint_def
        hoistInstructionToPreheader_def NotALoadOrStore_def split: kind.splits option.splits if_splits)
  with visitInst_cases [OF assms(3)] assms(1) show ?thesis by auto
qed

lemma visitInst_target_parent:
  assumes pre: "getLoopPreheader L = Some PH" and wf: "wfFunc f" and i: "i \<in> set (instsOf f b0)"
    and v: "visitInst L PH i (f, st, lg) = Inr (f', st', lg')"
  shows "getParent f' (addr i) = (if accepts L f i then Some PH else Some b0)"
proof (cases "accepts L f i")
  case True
  from visitInst_accepted [OF pre True v] obtain dst i'
    where t: "getTerminator f PH = Some dst" and al: "alike i i'" and f': "f' = relink i' i dst f"
    by blast
  have d: "dst \<in> set (instsOf f PH)" using t by (rule getTerminator_SomeD)
  have "i \<noteq> dst"
    using getTerminator_SomeD(1) [OF t] hoistable_not_terminator [OF accepts_hoistable [OF True]]
    by auto
  moreover have "i \<in> set (allInsts f)" using i instsOf_subset by blast
  ultimately show ?thesis
    using getParent_relink [OF wf _ d _ alike_fields(1) [OF al], of "addr i"] f' True by simp
next
  case False
  with visitInst_not_accepted [OF pre False, of st lg] v have "f' = f" by simp
  with False wf i show ?thesis by (simp add: getParent_of_member)
qed

lemma member_of_parent:
  assumes "wfFunc f" and "i \<in> set (allInsts f)" and "getParent f (addr i) = Some b"
  shows "i \<in> set (instsOf f b)"
proof -
  from assms(1) have "distinct (map fst f)" by (simp add: wfFunc_def)
  from getParent_SomeD [OF this assms(3)] obtain k
    where k: "k \<in> set (instsOf f b)" "addr k = addr i" by blast
  then have "k \<in> set (allInsts f)" using instsOf_subset by blast
  with assms(1,2) k(2) have "k = i" using wfFunc_same_addr by blast
  with k(1) show ?thesis by simp
qed

lemma stable_member:
  assumes sf: "stable L f0 f" and i0: "i \<in> set (allInsts f0)"
    and b0: "b0 \<in> set (loopBlocks L)" and p: "getParent f (addr i) = Some b0"
  shows "i \<in> set (instsOf f b0)"
proof -
  from sf have wf: "wfFunc f" and wf0: "wfFunc f0" by (simp_all add: stable_def)
  from wf have "distinct (map fst f)" by (simp add: wfFunc_def)
  from getParent_SomeD [OF this p] obtain k where k: "k \<in> set (instsOf f b0)" "addr k = addr i"
    by blast
  with sf b0 have "k \<in> set (instsOf f0 b0)" by (auto simp: stable_def)
  then have "k \<in> set (allInsts f0)" using instsOf_subset by blast
  with wf0 i0 k(2) have "k = i" using wfFunc_same_addr by blast
  with k(1) show ?thesis by simp
qed

lemma visitInst_fate:
  assumes pre: "getLoopPreheader L = Some PH" and ph: "PH \<notin> set (loopBlocks L)"
    and acc: "decided L f0 i b0 A"
    and i0: "i \<in> set (allInsts f0)" and b0: "b0 \<in> set (loopBlocks L)"
    and sf: "stable L f0 f" and j: "j \<in> set (allInsts f)"
    and v: "visitInst L PH j (f, st, lg) = Inr (f', st', lg')"
  shows "stable L f0 f'"
    and "getParent f (addr i) = Some PH \<Longrightarrow> getParent f' (addr i) = Some PH"
    and "getParent f (addr i) = Some b0 \<Longrightarrow>
           getParent f' (addr i) = (if j = i \<and> A then Some PH else Some b0)"
proof -
  from sf have wf: "wfFunc f" by (simp add: stable_def)
  show "stable L f0 f'" using pre ph sf j v by (rule visitInst_stable)
  show "getParent f' (addr i) = Some PH" if p: "getParent f (addr i) = Some PH"
  proof (cases "addr j = addr i")
    case True
    with visitInst_self_parent [OF pre wf j v] p show ?thesis by auto
  next
    case False
    then have "addr i \<noteq> addr j" by simp
    with visitInst_other_parent [OF pre wf j v] p show ?thesis by simp
  qed
  show "getParent f' (addr i) = (if j = i \<and> A then Some PH else Some b0)"
    if p: "getParent f (addr i) = Some b0"
  proof -
    have m: "i \<in> set (instsOf f b0)" using sf i0 b0 p by (rule stable_member)
    then have i: "i \<in> set (allInsts f)" using instsOf_subset by blast
    show ?thesis
    proof (cases "j = i")
      case True
      have "accepts L f i = A" using acc sf m by (simp add: decided_def)
      with visitInst_target_parent [OF pre wf m] v True show ?thesis by auto
    next
      case False
      with wf i j have "addr i \<noteq> addr j" using wfFunc_same_addr by blast
      with visitInst_other_parent [OF pre wf j v] p False show ?thesis by simp
    qed
  qed
qed

lemma drainWorklist_fate:
  assumes pre: "getLoopPreheader L = Some PH" and ph: "PH \<notin> set (loopBlocks L)"
    and acc: "decided L f0 i b0 A"
    and i0: "i \<in> set (allInsts f0)" and b0: "b0 \<in> set (loopBlocks L)"
    and run: "drainWorklist L PH wl (f, st, lg) = Inr (f', st', lg')"
    and sf: "stable L f0 f" and wl: "set wl \<subseteq> set (allInsts f)" and dw: "distinct wl"
  shows "stable L f0 f' \<and>
         (getParent f (addr i) = Some PH \<longrightarrow> getParent f' (addr i) = Some PH) \<and>
         (getParent f (addr i) = Some b0 \<longrightarrow>
            getParent f' (addr i) = (if i \<in> set wl \<and> A then Some PH else Some b0))"
  using run sf wl dw
proof (induction wl arbitrary: f st lg)
  case Nil
  then show ?case by simp
next
  case (Cons j wl)
  from Cons.prems(1) obtain f1 st1 lg1
    where v: "visitInst L PH j (f, st, lg) = Inr (f1, st1, lg1)"
      and d: "drainWorklist L PH wl (f1, st1, lg1) = Inr (f', st', lg')"
    by (cases "visitInst L PH j (f, st, lg)") auto
  from Cons.prems(3) have j: "j \<in> set (allInsts f)" by simp
  note vf = visitInst_fate [OF pre ph acc i0 b0 Cons.prems(2) j v]
  have s1: "stable L f0 f1" using vf(1) .
  have w1: "set wl \<subseteq> set (allInsts f1)"
    using Cons.prems(3,4) visitInst_others_remain [OF v] by auto
  from Cons.prems(4) have dw1: "distinct wl" by simp
  note ih = Cons.IH [OF d s1 w1 dw1]
  show ?case
  proof (intro conjI impI)
    show "stable L f0 f'" using ih by simp
    show "getParent f' (addr i) = Some PH" if "getParent f (addr i) = Some PH"
      using vf(2) [OF that] ih by simp
    show "getParent f' (addr i) = (if i \<in> set (j # wl) \<and> A then Some PH else Some b0)"
      if p: "getParent f (addr i) = Some b0"
    proof (cases "j = i \<and> A")
      case True
      with vf(3) [OF p] have "getParent f1 (addr i) = Some PH" by simp
      with ih True show ?thesis by simp
    next
      case False
      with vf(3) [OF p] have "getParent f1 (addr i) = Some b0" by simp
      with ih have "getParent f' (addr i) = (if i \<in> set wl \<and> A then Some PH else Some b0)"
        by simp
      with False show ?thesis by auto
    qed
  qed
qed

lemma forBlocks_fate:
  assumes pre: "getLoopPreheader L = Some PH" and ph: "PH \<notin> set (loopBlocks L)"
    and acc: "decided L f0 i b0 A"
    and i0: "i \<in> set (allInsts f0)" and b0: "b0 \<in> set (loopBlocks L)"
    and run: "forBlocks L PH bbs (f, st, lg) = Inr (f', st', lg')"
    and sf: "stable L f0 f"
  shows "stable L f0 f' \<and>
         (getParent f (addr i) = Some PH \<longrightarrow> getParent f' (addr i) = Some PH) \<and>
         (getParent f (addr i) = Some b0 \<longrightarrow>
            getParent f' (addr i) = (if b0 \<in> set bbs \<and> A then Some PH else Some b0))"
  using run sf
proof (induction bbs arbitrary: f st lg)
  case Nil
  then show ?case by simp
next
  case (Cons bb bbs)
  define stx where "stx = updateStats (list_ex isaLoadInst (instsOf f bb))
      (list_ex isaStoreInst (instsOf f bb)) (list_ex isaCallInst (instsOf f bb)) st"
  from Cons.prems(1) obtain f1 st1 lg1
    where d: "drainWorklist L PH (sort_key addr (instsOf f bb)) (f, stx, lg) = Inr (f1, st1, lg1)"
      and r: "forBlocks L PH bbs (f1, st1, lg1) = Inr (f', st', lg')"
    unfolding stx_def
    by (cases "drainWorklist L PH (sort_key addr (instsOf f bb)) (f, updateStats (list_ex isaLoadInst (instsOf f bb))
      (list_ex isaStoreInst (instsOf f bb)) (list_ex isaCallInst (instsOf f bb)) st, lg)") (auto simp: Let_def)
  from Cons.prems(2) have wf: "wfFunc f" by (simp add: stable_def)
  have sub: "set (sort_key addr (instsOf f bb)) \<subseteq> set (allInsts f)"
    using instsOf_subset by simp
  have "distinct (allInsts f)" using wf by (simp add: wfFunc_def distinct_map)
  then have dw: "distinct (sort_key addr (instsOf f bb))" by (simp add: distinct_instsOf)
  note df = drainWorklist_fate [OF pre ph acc i0 b0 d Cons.prems(2) sub dw]
  then have s1: "stable L f0 f1" by simp
  note ih = Cons.IH [OF r s1]
  show ?case
  proof (intro conjI impI)
    show "stable L f0 f'" using ih by simp
    show "getParent f' (addr i) = Some PH" if "getParent f (addr i) = Some PH"
      using that df ih by simp
    show "getParent f' (addr i) = (if b0 \<in> set (bb # bbs) \<and> A then Some PH else Some b0)"
      if p: "getParent f (addr i) = Some b0"
    proof -
      have m: "i \<in> set (instsOf f b0)" using Cons.prems(2) i0 b0 p by (rule stable_member)
      have iff: "i \<in> set (sort_key addr (instsOf f bb)) \<longleftrightarrow> bb = b0"
        using m p getParent_of_member [OF wf, of i bb] by auto
      with df p have p1: "getParent f1 (addr i) = (if bb = b0 \<and> A then Some PH else Some b0)"
        by simp
      show ?thesis
      proof (cases "bb = b0 \<and> A")
        case True
        with p1 ih show ?thesis by simp
      next
        case False
        with p1 ih show ?thesis by auto
      qed
    qed
  qed
qed

lemma blocksLoad_stable: "stable L f0 g \<Longrightarrow> blocksLoad g a s = blocksLoad f0 a s"
  by (cases "kind s") (simp_all add: blocksLoad_def stable_def)

lemma blocksLoad_store: "blocksLoad f a s \<Longrightarrow> isaStoreInst s"
  by (auto simp: blocksLoad_def split: kind.splits)

lemma blocked_stable:
  assumes "stable L f0 g"
  shows "list_ex (blocksLoad g a) (loopInsts L g) = list_ex (blocksLoad f0 a) (loopInsts L f0)"
proof -
  have e: "set (filter isaStoreInst (instsOf g b)) = set (filter isaStoreInst (instsOf f0 b))" for b
    using assms by (simp add: stable_def)
  have "(\<exists>s \<in> set (instsOf g b). blocksLoad f0 a s) = (\<exists>s \<in> set (instsOf f0 b). blocksLoad f0 a s)" for b
    using e [of b] blocksLoad_store [of f0 a] by auto
  then show ?thesis
    by (simp add: list_ex_iff loopInsts_def blocksLoad_stable [OF assms])
qed

lemma decided_load:
  assumes "kind i = LoadInst a"
  shows "decided L f0 i b0
           (\<not> isVolatile i \<and> isaGlobalVariable a \<and> \<not> list_ex (blocksLoad f0 a) (loopInsts L f0))"
  using assms
  by (auto simp: decided_def accepts_def NotALoadOrStore_def CanMoveOutofLoop_iff blocked_stable)

lemma isLoopInvariant_stable:
  "stable L f0 g \<Longrightarrow> isLoopInvariant L f0 v \<Longrightarrow> isLoopInvariant L g v"
  by (cases v) (auto simp: stable_def)

lemma decided_ordinary:
  assumes "NotALoadOrStore i" and "AreAllOperandsLoopInvaraint L f0 i" and "b0 \<in> set (loopBlocks L)"
  shows "decided L f0 i b0
           (isSafeToSpeculativelyExecute i \<and> \<not> mayReadFromMemory i \<and> \<not> isEHPad i)"
  unfolding decided_def
proof (intro allI impI)
  fix g
  assume sg: "stable L f0 g" and m: "i \<in> set (instsOf g b0)"
  from sg have "wfFunc g" by (simp add: stable_def)
  with m have "getParent g (addr i) = Some b0" by (simp add: getParent_of_member)
  with assms(3) have c: "contains L g (addr i)" by (simp add: contains_def)
  have "AreAllOperandsLoopInvaraint L g i"
    using assms(2) isLoopInvariant_stable [OF sg]
    by (auto simp: AreAllOperandsLoopInvaraint_def list_all_iff)
  with assms(1) c
  show "accepts L g i = (isSafeToSpeculativelyExecute i \<and> \<not> mayReadFromMemory i \<and> \<not> isEHPad i)"
    by (simp add: accepts_def)
qed

lemma keepsTerminators_refl: "keepsTerminators f f"
  by (simp add: keepsTerminators_def)

lemma keepsTerminators_trans:
  "keepsTerminators f g \<Longrightarrow> keepsTerminators g h \<Longrightarrow> keepsTerminators f h"
  by (simp add: keepsTerminators_def)

lemma visitInst_keepsTerminators:
  assumes "visitInst L PH i (f, st, lg) = Inr (f', st', lg')"
  shows "keepsTerminators f f'"
proof -
  from visitInst_cases [OF assms] consider "f' = f"
    | dst i' where "hoistable i" "alike i i'" "f' = relink i' i dst f"
    by blast
  then show ?thesis
  proof cases
    case 1
    then show ?thesis by (simp add: keepsTerminators_def)
  next
    case 2
    from 2(1) have "\<not> isTerminator i" by (rule hoistable_not_terminator)
    moreover from this have "\<not> isTerminator i'" using alike_isTerminator [OF 2(2)] by simp
    ultimately show ?thesis
      unfolding keepsTerminators_def 2(3) using getTerminator_relink by blast
  qed
qed

lemma visitInst_total:
  assumes "getLoopPreheader L = Some PH" and "getTerminator f PH = Some t"
  shows "\<exists>f' st' lg'. visitInst L PH i (f, st, lg) = Inr (f', st', lg') \<and> keepsTerminators f f'"
proof -
  have r: "\<exists>f' st' lg'. visitInst L PH i (f, st, lg) = Inr (f', st', lg')"
    using assms
    by (auto simp: visitInst_def makeLoopInvariant_def AreAllOperandsLoopInvaraint_def
        hoistInstructionToPreheader_def split: kind.splits)
  then obtain f' st' lg' where v: "visitInst L PH i (f, st, lg) = Inr (f', st', lg')" by blast
  from v have "keepsTerminators f f'" by (rule visitInst_keepsTerminators)
  with v show ?thesis by blast
qed

lemma drainWorklist_total:
  assumes "getLoopPreheader L = Some PH"
  shows "getTerminator f PH = Some t \<Longrightarrow>
         \<exists>f' st' lg'. drainWorklist L PH wl (f, st, lg) = Inr (f', st', lg') \<and> keepsTerminators f f'"
proof (induction wl arbitrary: f st lg)
  case Nil
  then show ?case by (simp add: keepsTerminators_refl)
next
  case (Cons j wl)
  from visitInst_total [OF assms Cons.prems] obtain f1 st1 lg1
    where v: "visitInst L PH j (f, st, lg) = Inr (f1, st1, lg1)" and k: "keepsTerminators f f1"
    by blast
  from k Cons.prems have "getTerminator f1 PH = Some t" by (simp add: keepsTerminators_def)
  from Cons.IH [OF this] obtain f' st' lg'
    where "drainWorklist L PH wl (f1, st1, lg1) = Inr (f', st', lg')" "keepsTerminators f1 f'"
    by blast
  with v k show ?case by (auto intro: keepsTerminators_trans)
qed

lemma forBlocks_total:
  assumes "getLoopPreheader L = Some PH"
  shows "getTerminator f PH = Some t \<Longrightarrow>
         \<exists>f' st' lg'. forBlocks L PH bbs (f, st, lg) = Inr (f', st', lg') \<and> keepsTerminators f f'"
proof (induction bbs arbitrary: f st lg)
  case Nil
  then show ?case by (simp add: keepsTerminators_refl)
next
  case (Cons bb bbs)
  define stx where "stx = updateStats (list_ex isaLoadInst (instsOf f bb))
      (list_ex isaStoreInst (instsOf f bb)) (list_ex isaCallInst (instsOf f bb)) st"
  from drainWorklist_total [OF assms Cons.prems] obtain f1 st1 lg1
    where d: "drainWorklist L PH (sort_key addr (instsOf f bb)) (f, stx, lg) = Inr (f1, st1, lg1)"
      and k: "keepsTerminators f f1"
    by blast
  from k Cons.prems have "getTerminator f1 PH = Some t" by (simp add: keepsTerminators_def)
  from Cons.IH [OF this] obtain f' st' lg'
    where "forBlocks L PH bbs (f1, st1, lg1) = Inr (f', st', lg')" "keepsTerminators f1 f'"
    by blast
  with d k show ?case unfolding stx_def by (auto simp: Let_def intro: keepsTerminators_trans)
qed

lemma preheaderEnds_keeps:
  "preheaderEnds L f \<Longrightarrow> keepsTerminators f g \<Longrightarrow> preheaderEnds L g"
  "preheadersEnd Ls f \<Longrightarrow> keepsTerminators f g \<Longrightarrow> preheadersEnd Ls g"
  by (induction L f and Ls f rule: preheaderEnds_preheadersEnd.induct)
     (auto simp: keepsTerminators_def split: option.splits)

lemma preheadersEnd_iff: "preheadersEnd Ls f = list_all (\<lambda>L. preheaderEnds L f) Ls"
  by (induction Ls) auto

lemma OptimizeLoop2_total:
  "preheaderEnds L f \<Longrightarrow>
     \<exists>f' st' lg'. OptimizeLoop2 L (f, st, lg) = Inr (f', st', lg') \<and> keepsTerminators f f'"
proof (induction L arbitrary: f st lg)
  case (Loop ph bbs subs)
  show ?case
  proof (cases ph)
    case None
    then show ?thesis by (simp add: keepsTerminators_refl)
  next
    case (Some PH)
    with Loop.prems obtain t where t: "getTerminator f PH = Some t" and e: "preheadersEnd subs f"
      by auto
    have subs: "set Ls \<subseteq> set subs \<Longrightarrow> preheadersEnd Ls g \<Longrightarrow>
        \<exists>g' st' lg'. OptimizeSubLoops Ls (g, s, l) = Inr (g', st', lg') \<and> keepsTerminators g g'"
      for Ls g s l
    proof (induction Ls arbitrary: g s l)
      case Nil
      then show ?case by (simp add: keepsTerminators_refl)
    next
      case (Cons S Ls)
      from Cons.prems have "S \<in> set subs" "preheaderEnds S g" by simp_all
      from Loop.IH [OF this] obtain g1 s1 l1
        where a: "OptimizeLoop2 S (g, s, l) = Inr (g1, s1, l1)" and k: "keepsTerminators g g1"
        by blast
      from Cons.prems k have "preheadersEnd Ls g1" by (auto intro: preheaderEnds_keeps(2))
      with Cons.IH Cons.prems(1) obtain g' st' lg'
        where "OptimizeSubLoops Ls (g1, s1, l1) = Inr (g', st', lg')" "keepsTerminators g1 g'"
        by (meson set_subset_Cons subset_trans)
      with a k show ?case by (auto intro: keepsTerminators_trans)
    qed
    from subs [OF subset_refl e] obtain f1 st1 lg1
      where a: "OptimizeSubLoops subs (f, st\<lparr>NumLoops := NumLoops st + 1\<rparr>, lg) = Inr (f1, st1, lg1)"
        and k: "keepsTerminators f f1"
      by blast
    from k t have t1: "getTerminator f1 PH = Some t" by (simp add: keepsTerminators_def)
    have "getLoopPreheader (Loop ph bbs subs) = Some PH" using Some by simp
    from forBlocks_total [OF this t1] obtain f' st' lg'
      where "forBlocks (Loop ph bbs subs) PH bbs (f1, st1, lg1) = Inr (f', st', lg')"
        "keepsTerminators f1 f'"
      by blast
    with a k Some show ?thesis by (auto simp: Let_def intro: keepsTerminators_trans)
  qed
qed

lemma OptimizeSubLoops_total:
  "preheadersEnd Ls f \<Longrightarrow>
     \<exists>f' st' lg'. OptimizeSubLoops Ls (f, st, lg) = Inr (f', st', lg') \<and> keepsTerminators f f'"
proof (induction Ls arbitrary: f st lg)
  case Nil
  then show ?case by (simp add: keepsTerminators_refl)
next
  case (Cons S Ls)
  from Cons.prems have "preheaderEnds S f" by simp
  from OptimizeLoop2_total [OF this] obtain f1 st1 lg1
    where a: "OptimizeLoop2 S (f, st, lg) = Inr (f1, st1, lg1)" and k: "keepsTerminators f f1"
    by blast
  from Cons.prems k have "preheadersEnd Ls f1" by (auto intro: preheaderEnds_keeps(2))
  from Cons.IH [OF this] obtain f' st' lg'
    where "OptimizeSubLoops Ls (f1, st1, lg1) = Inr (f', st', lg')" "keepsTerminators f1 f'"
    by blast
  with a k show ?case by (auto intro: keepsTerminators_trans)
qed

lemma RunLICMBasic_total:
  "preheadersEndIn M \<Longrightarrow> \<exists>M' st' lg'. RunLICMBasic M (st, lg) = Inr (M', st', lg')"
proof (induction M arbitrary: st lg)
  case Nil
  then show ?case by simp
next
  case (Cons a M)
  obtain F LI where a: "a = (F, LI)" by (cases a)
  from Cons.prems a have e: "preheadersEnd LI F" and m: "preheadersEndIn M"
    by (simp_all add: preheadersEndIn_def)
  from OptimizeSubLoops_total [OF e] obtain F1 st1 lg1
    where o: "OptimizeSubLoops LI (F, st, lg) = Inr (F1, st1, lg1)" by blast
  from Cons.IH [OF m] obtain M1 st2 lg2 where "RunLICMBasic M (st1, lg1) = Inr (M1, st2, lg2)" by blast
  moreover from Cons.IH [OF m] obtain M3 st3 lg3 where "RunLICMBasic M (st, lg) = Inr (M3, st3, lg3)" by blast
  ultimately show ?case using a o by (cases "F = []") auto
qed

lemma LoopInvariantCodeMotion_total:
  "preheadersEndIn M \<Longrightarrow> \<exists>M' st' lg. LoopInvariantCodeMotion M st = Inr (M', st', lg)"
  unfolding LoopInvariantCodeMotion_eq by (rule RunLICMBasic_total)

lemma OptimizeSubLoops_keepsTerminators:
  assumes "OptimizeSubLoops LI (F, st, lg) = Inr (F', st', lg')"
  shows "keepsTerminators F F'"
proof (rule OptimizeSubLoops_lift2 [where \<Phi> = "\<lambda>g t l. keepsTerminators F g", OF _ _ assms])
  fix L PH i f st lg f' st' lg'
  assume "keepsTerminators F f" "visitInst L PH i (f, st, lg) = Inr (f', st', lg')"
  then show "keepsTerminators F f'"
    using visitInst_keepsTerminators keepsTerminators_trans by blast
qed (simp_all add: keepsTerminators_refl)

lemma ownPass_fate:
  assumes pre: "getLoopPreheader L = Some PH" and ph: "PH \<notin> set (loopBlocks L)"
    and wf: "wfFunc f" and t: "getTerminator f PH = Some dst"
    and i: "i \<in> set (loopInsts L f)"
    and dec: "\<forall>b0 \<in> set (loopBlocks L). decided L f i b0 A"
  shows "\<exists>f' st' lg'. forBlocks L PH (loopBlocks L) (f, st, lg) = Inr (f', st', lg') \<and>
           getTerminator f' PH = Some dst \<and> (getParent f' (addr i) = Some PH \<longleftrightarrow> A)"
proof -
  from forBlocks_total [OF pre t] obtain f' st' lg'
    where run: "forBlocks L PH (loopBlocks L) (f, st, lg) = Inr (f', st', lg')"
      and k: "keepsTerminators f f'"
    by blast
  from i obtain b0 where b0: "b0 \<in> set (loopBlocks L)" and m: "i \<in> set (instsOf f b0)"
    by (auto simp: loopInsts_def)
  from b0 ph have ne: "b0 \<noteq> PH" by auto
  have p: "getParent f (addr i) = Some b0" using wf m by (rule getParent_of_member)
  have i0: "i \<in> set (allInsts f)" using m instsOf_subset by blast
  from dec b0 have d: "decided L f i b0 A" by simp
  from forBlocks_fate [OF pre ph d i0 b0 run stable_refl [OF wf]] p b0
  have "getParent f' (addr i) = (if A then Some PH else Some b0)" by simp
  with ne have "getParent f' (addr i) = Some PH \<longleftrightarrow> A" by auto
  moreover from k t have "getTerminator f' PH = Some dst" by (simp add: keepsTerminators_def)
  ultimately show ?thesis using run by blast
qed

lemma OptimizeLoop2_counted:
  assumes "OptimizeLoop2 L (f, st, lg) = Inr (f', st', lg')" and "counted st0 st lg"
  shows "counted st0 st' lg'"
proof (rule OptimizeLoop2_lift [where \<Phi> = "\<lambda>g t l. counted st0 t l", OF _ _ assms])
  fix L PH i f st lg f' st' lg'
  assume "counted st0 st lg" "visitInst L PH i (f, st, lg) = Inr (f', st', lg')"
  then show "counted st0 st' lg'" using visitInst_counted by blast
qed (simp add: counted_def)

subsection \<open>What a run does to the instructions\<close>

lemma visitInst_coreInsts:
  assumes v: "visitInst L PH i (f, st, lg) = Inr (f', st', lg')"
    and d: "distinct (map addr (allInsts f))" and i: "i \<in> set (allInsts f)"
  shows "mset (map clearMetadata (allInsts f')) = mset (map clearMetadata (allInsts f))"
    and "mset (filter (\<lambda>x. \<not> NotALoadOrStore x) (allInsts f'))
           = mset (filter (\<lambda>x. \<not> NotALoadOrStore x) (allInsts f))"
proof -
  from visitInst_cases [OF v] consider "f' = f"
    | dst p i' where "getTerminator f p = Some dst" "hoistable i" "alike i i'"
        "isaLoadInst i \<longrightarrow> i' = i" "NotALoadOrStore i \<longrightarrow> i' = clearMetadata i"
        "f' = relink i' i dst f"
    by blast
  then have "mset (map clearMetadata (allInsts f')) = mset (map clearMetadata (allInsts f)) \<and>
             mset (filter (\<lambda>x. \<not> NotALoadOrStore x) (allInsts f'))
               = mset (filter (\<lambda>x. \<not> NotALoadOrStore x) (allInsts f))"
  proof cases
    case 1
    then show ?thesis by simp
  next
    case 2
    have dd: "dst \<in> set (allInsts f)"
      using getTerminator_SomeD(2) [OF 2(1)] instsOf_subset by auto
    have ne: "i \<noteq> dst"
      using getTerminator_SomeD(1) [OF 2(1)] hoistable_not_terminator [OF 2(2)] by auto
    have d': "distinct (allInsts f)" using d by (simp add: distinct_map)
    have m: "mset (allInsts f') = mset (allInsts f) - {#i#} + {#i'#}"
      unfolding 2(6) using d' i dd ne by (rule mset_allInsts_relink)
    have c: "clearMetadata i' = clearMetadata i" using 2(3) by (simp add: alike_def)
    have "image_mset clearMetadata (mset (allInsts f) - {#i#})
            = image_mset clearMetadata (mset (allInsts f)) - {#clearMetadata i#}"
      using i by (simp add: image_mset_Diff)
    with m c have "image_mset clearMetadata (mset (allInsts f'))
        = image_mset clearMetadata (mset (allInsts f)) - {#clearMetadata i#} + {#clearMetadata i#}"
      by simp
    also have "\<dots> = image_mset clearMetadata (mset (allInsts f))" using i by simp
    finally have 1: "mset (map clearMetadata (allInsts f')) = mset (map clearMetadata (allInsts f))"
      by simp
    have 2: "mset (filter (\<lambda>x. \<not> NotALoadOrStore x) (allInsts f'))
               = mset (filter (\<lambda>x. \<not> NotALoadOrStore x) (allInsts f))"
    proof (cases "NotALoadOrStore i")
      case True
      moreover from True have "NotALoadOrStore i'" using alike_NotALoadOrStore [OF 2(3)] by simp
      ultimately have "filter_mset (\<lambda>x. \<not> NotALoadOrStore x) (mset (allInsts f'))
          = filter_mset (\<lambda>x. \<not> NotALoadOrStore x) (mset (allInsts f))"
        unfolding m by (simp add: filter_diff_mset)
      then show ?thesis by (simp add: mset_filter)
    next
      case False
      with \<open>hoistable i\<close> have "isaLoadInst i"
        by (auto simp: NotALoadOrStore_def hoistable_def split: kind.splits if_splits)
      with 2(4) have "i' = i" by simp
      with m i have "mset (allInsts f') = mset (allInsts f)" by simp
      then show ?thesis by (metis mset_filter)
    qed
    from 1 2 show ?thesis by simp
  qed
  then show "mset (map clearMetadata (allInsts f')) = mset (map clearMetadata (allInsts f))"
    and "mset (filter (\<lambda>x. \<not> NotALoadOrStore x) (allInsts f'))
           = mset (filter (\<lambda>x. \<not> NotALoadOrStore x) (allInsts f))"
    by simp_all
qed

lemma OptimizeSubLoops_sameInsts:
  assumes "OptimizeSubLoops LI (F, st, lg) = Inr (F', st', lg')"
    and "distinct (map addr (allInsts F))"
  shows "sameInsts F F'"
proof -
  define \<Phi> where "\<Phi> = (\<lambda>g (t::stats) (l::relocation list).
      mset (map clearMetadata (allInsts g)) = mset (map clearMetadata (allInsts F)) \<and>
      mset (filter (\<lambda>x. \<not> NotALoadOrStore x) (allInsts g))
        = mset (filter (\<lambda>x. \<not> NotALoadOrStore x) (allInsts F)))"
  have "\<Phi> F' st' lg' \<and> distinct (map addr (allInsts F'))"
  proof (rule OptimizeSubLoops_wlift2 [where \<Phi> = \<Phi>, OF _ _ assms(1) _ assms(2)])
    show "\<Phi> F st lg" by (simp add: \<Phi>_def)
  next
    fix L PH i f st lg f' st' lg'
    assume "\<Phi> f st lg" "distinct (map addr (allInsts f))" "i \<in> set (allInsts f)"
      "visitInst L PH i (f, st, lg) = Inr (f', st', lg')"
    then show "\<Phi> f' st' lg'"
      using visitInst_coreInsts [of L PH i f st lg f' st' lg'] by (simp add: \<Phi>_def)
  qed (simp add: \<Phi>_def)
  with OptimizeSubLoops_map_fst [OF assms(1)] show ?thesis by (simp add: \<Phi>_def sameInsts_def)
qed

lemma visitInst_cleared:
  assumes v: "visitInst L PH i (f, st, lg) = Inr (f', st', lg')"
    and c: "\<forall>r \<in> set lg. r \<in> set lg0 \<or>
              (NotALoadOrStore (moved r) \<longrightarrow> clearMetadata (moved r) \<in> set (allInsts f))"
  shows "\<forall>r \<in> set lg'. r \<in> set lg0 \<or>
              (NotALoadOrStore (moved r) \<longrightarrow> clearMetadata (moved r) \<in> set (allInsts f'))"
proof -
  from visitInst_cases [OF v] consider "f' = f" "lg' = lg"
    | dst p i' where "getTerminator f p = Some dst" "hoistable i"
        "NotALoadOrStore i \<longrightarrow> i' = clearMetadata i" "i' = i \<or> i' = clearMetadata i"
        "f' = relink i' i dst f" "lg' = lg @ [\<lparr>moved = i, outOf = L, placement = f\<rparr>]"
    by blast
  then show ?thesis
  proof cases
    case 1
    with c show ?thesis by simp
  next
    case 2
    have dd: "dst \<in> set (allInsts f)"
      using getTerminator_SomeD(2) [OF 2(1)] instsOf_subset by auto
    have ne: "i \<noteq> dst"
      using getTerminator_SomeD(1) [OF 2(1)] hoistable_not_terminator [OF 2(2)] by auto
    have s: "set (allInsts f') = insert i' (set (allInsts f) - {i})"
      unfolding 2(5) using dd ne by (rule set_allInsts_relink)
    have keep: "clearMetadata x \<in> set (allInsts f')" if "clearMetadata x \<in> set (allInsts f)" for x
    proof (cases "clearMetadata x = i")
      case True
      then have "clearMetadata i = i" by (cases x) (auto simp: clearMetadata_def)
      with 2(4) True show ?thesis by (auto simp: s)
    next
      case False
      with that show ?thesis by (simp add: s)
    qed
    show ?thesis
    proof
      fix r assume "r \<in> set lg'"
      with 2(6) consider "r \<in> set lg" | "r = \<lparr>moved = i, outOf = L, placement = f\<rparr>" by auto
      then show "r \<in> set lg0 \<or>
          (NotALoadOrStore (moved r) \<longrightarrow> clearMetadata (moved r) \<in> set (allInsts f'))"
      proof cases
        case 1
        with c keep show ?thesis by blast
      next
        case 2
        with \<open>NotALoadOrStore i \<longrightarrow> i' = clearMetadata i\<close> show ?thesis by (auto simp: s)
      qed
    qed
  qed
qed

lemma OptimizeSubLoops_cleared:
  assumes "OptimizeSubLoops LI (F, st, lg) = Inr (F', st', lg')"
  shows "\<forall>r \<in> set lg'. r \<in> set lg \<or>
           (NotALoadOrStore (moved r) \<longrightarrow> clearMetadata (moved r) \<in> set (allInsts F'))"
proof (rule OptimizeSubLoops_lift2 [where \<Phi> = "\<lambda>g t l. \<forall>r \<in> set l. r \<in> set lg \<or>
           (NotALoadOrStore (moved r) \<longrightarrow> clearMetadata (moved r) \<in> set (allInsts g))", OF _ _ assms])
  fix L PH i f st l f' st' l'
  assume "\<forall>r \<in> set l. r \<in> set lg \<or>
           (NotALoadOrStore (moved r) \<longrightarrow> clearMetadata (moved r) \<in> set (allInsts f))"
    "visitInst L PH i (f, st, l) = Inr (f', st', l')"
  then show "\<forall>r \<in> set l'. r \<in> set lg \<or>
           (NotALoadOrStore (moved r) \<longrightarrow> clearMetadata (moved r) \<in> set (allInsts f'))"
    using visitInst_cleared [of L PH i f st l f' st' l' lg] by blast
qed simp_all

lemma RunLICMBasic_cleared:
  "RunLICMBasic M (st, lg) = Inr (M', st', lg') \<Longrightarrow>
     \<forall>r \<in> set lg'. r \<in> set lg \<or>
       (NotALoadOrStore (moved r) \<longrightarrow>
          (\<exists>(F', LI) \<in> set M'. clearMetadata (moved r) \<in> set (allInsts F')))"
proof (induction M arbitrary: st lg M')
  case Nil
  then show ?case by simp
next
  case (Cons a M)
  obtain F LI where a: "a = (F, LI)" by (cases a)
  show ?case
  proof (cases "F = []")
    case True
    with Cons.prems a obtain M1 where r: "RunLICMBasic M (st, lg) = Inr (M1, st', lg')"
      and M': "M' = (F, LI) # M1"
      by (cases "RunLICMBasic M (st, lg)") auto
    from Cons.IH [OF r] M' show ?thesis by fastforce
  next
    case False
    with Cons.prems a obtain F1 st1 lg1 M1
      where o: "OptimizeSubLoops LI (F, st, lg) = Inr (F1, st1, lg1)"
        and r: "RunLICMBasic M (st1, lg1) = Inr (M1, st', lg')"
        and M': "M' = (F1, LI) # M1"
      by (cases "OptimizeSubLoops LI (F, st, lg)"; cases "RunLICMBasic M (snd (projr (OptimizeSubLoops LI (F, st, lg))))")
         auto
    note 1 = OptimizeSubLoops_cleared [OF o]
    note 2 = Cons.IH [OF r]
    show ?thesis
    proof
      fix x assume "x \<in> set lg'"
      with 2 consider "x \<in> set lg1"
        | "NotALoadOrStore (moved x) \<longrightarrow>
             (\<exists>(F', LI) \<in> set M1. clearMetadata (moved x) \<in> set (allInsts F'))"
        by blast
      then show "x \<in> set lg \<or> (NotALoadOrStore (moved x) \<longrightarrow>
          (\<exists>(F', LI) \<in> set M'. clearMetadata (moved x) \<in> set (allInsts F')))"
      proof cases
        case 1
        with \<open>\<forall>r \<in> set lg1. _\<close> M' show ?thesis by auto
      next
        case 2
        with M' show ?thesis by auto
      qed
    qed
  qed
qed

subsection \<open>Instructions that are never relocated stay where they are\<close>

lemma untouched_mono:
  "untouched lg F F' \<Longrightarrow> set lg \<subseteq> set lg' \<Longrightarrow> untouched lg' F F'"
  unfolding untouched_def neverMoved_def by (simp add: image_iff subset_iff)

lemma visitInst_untouched:
  assumes v: "visitInst L PH i (f, st, lg) = Inr (f', st', lg')"
    and u: "set lg0 \<subseteq> set lg \<and> untouched lg F f"
  shows "set lg0 \<subseteq> set lg' \<and> untouched lg' F f'"
proof -
  from visitInst_cases [OF v] consider "f' = f" "lg' = lg"
    | dst i' where "alike i i'" "f' = relink i' i dst f"
        "lg' = lg @ [\<lparr>moved = i, outOf = L, placement = f\<rparr>]"
    by blast
  then show ?thesis
  proof cases
    case 1
    with u show ?thesis by simp
  next
    case 2
    have s: "set lg \<subseteq> set lg'" using 2(3) by auto
    have a: "addr i' = addr i" using 2(1) by (rule alike_fields)
    have "untouched lg' F f'"
      unfolding untouched_def
    proof (intro allI impI)
      fix Q assume q: "\<forall>x. Q x \<longrightarrow> neverMoved lg' x"
      then have "\<not> Q i" "\<not> Q i'" using 2(3) a by (auto simp: neverMoved_def)
      then have e: "onlyInsts Q f' = onlyInsts Q f" using 2(2) by (simp add: onlyInsts_relink)
      from q have "\<forall>x. Q x \<longrightarrow> neverMoved lg x" using 2(3) by (auto simp: neverMoved_def)
      with u have "onlyInsts Q f = onlyInsts Q F" by (simp add: untouched_def)
      with e show "onlyInsts Q f' = onlyInsts Q F" by simp
    qed
    with u s show ?thesis by auto
  qed
qed

lemma OptimizeSubLoops_untouched:
  assumes "OptimizeSubLoops LI (F, st, lg) = Inr (F', st', lg')"
  shows "set lg \<subseteq> set lg' \<and> untouched lg' F F'"
proof (rule OptimizeSubLoops_lift2
    [where \<Phi> = "\<lambda>g t l. set lg \<subseteq> set l \<and> untouched l F g", OF _ _ assms])
  fix L PH i f st l f' st' l'
  assume "set lg \<subseteq> set l \<and> untouched l F f" "visitInst L PH i (f, st, l) = Inr (f', st', l')"
  then show "set lg \<subseteq> set l' \<and> untouched l' F f'" using visitInst_untouched by blast
qed (simp_all add: untouched_def)

lemma RunLICMBasic_untouched:
  "RunLICMBasic M (st, lg) = Inr (M', st', lg') \<Longrightarrow>
     set lg \<subseteq> set lg' \<and> list_all2 (\<lambda>(F, LI) (F', LI'). untouched lg' F F') M M'"
proof (induction M arbitrary: st lg M')
  case Nil
  then show ?case by simp
next
  case (Cons a M)
  obtain F LI where a: "a = (F, LI)" by (cases a)
  show ?case
  proof (cases "F = []")
    case True
    with Cons.prems a obtain M1 where r: "RunLICMBasic M (st, lg) = Inr (M1, st', lg')"
      and M': "M' = (F, LI) # M1"
      by (cases "RunLICMBasic M (st, lg)") auto
    from Cons.IH [OF r] M' a show ?thesis by (simp add: untouched_def)
  next
    case False
    with Cons.prems a obtain F1 st1 lg1 M1
      where o: "OptimizeSubLoops LI (F, st, lg) = Inr (F1, st1, lg1)"
        and r: "RunLICMBasic M (st1, lg1) = Inr (M1, st', lg')"
        and M': "M' = (F1, LI) # M1"
      by (cases "OptimizeSubLoops LI (F, st, lg)"; cases "RunLICMBasic M (snd (projr (OptimizeSubLoops LI (F, st, lg))))")
         auto
    from OptimizeSubLoops_untouched [OF o] have 1: "set lg \<subseteq> set lg1" and 2: "untouched lg1 F F1"
      by simp_all
    from Cons.IH [OF r] have 3: "set lg1 \<subseteq> set lg'"
      and 4: "list_all2 (\<lambda>(F, LI) (F', LI'). untouched lg' F F') M M1" by simp_all
    from 2 3 have "untouched lg' F F1" by (rule untouched_mono)
    with 1 3 4 M' a show ?thesis by auto
  qed
qed

lemma untouchedD: "untouched lg F F' \<Longrightarrow> onlyInsts (neverMoved lg) F' = onlyInsts (neverMoved lg) F"
  by (simp add: untouched_def)

subsection \<open>The counters of loops\<close>

lemma visitInst_loopCounters:
  assumes "visitInst L PH i (f, st, lg) = Inr (f', st', lg')"
  shows "NumLoops st' = NumLoops st \<and> LICMNoPreheader st' = LICMNoPreheader st"
  using visitInst_cases [OF assms] by auto

lemma drainWorklist_loopCounters:
  assumes "drainWorklist L PH wl (f, st, lg) = Inr (f', st', lg')"
  shows "NumLoops st' = NumLoops st \<and> LICMNoPreheader st' = LICMNoPreheader st"
proof (rule drainWorklist_lift [where \<Phi> = "\<lambda>g t l. NumLoops t = NumLoops st \<and>
      LICMNoPreheader t = LICMNoPreheader st", OF _ assms])
  fix i f st0 lg f' st' lg'
  assume "NumLoops st0 = NumLoops st \<and> LICMNoPreheader st0 = LICMNoPreheader st"
    "visitInst L PH i (f, st0, lg) = Inr (f', st', lg')"
  then show "NumLoops st' = NumLoops st \<and> LICMNoPreheader st' = LICMNoPreheader st"
    using visitInst_loopCounters by fastforce
qed simp

lemma forBlocks_loopCounters:
  "forBlocks L PH bbs (f, st, lg) = Inr (f', st', lg') \<Longrightarrow>
     NumLoops st' = NumLoops st \<and> LICMNoPreheader st' = LICMNoPreheader st"
proof (induction bbs arbitrary: f st lg)
  case Nil
  then show ?case by simp
next
  case (Cons bb bbs)
  define st0 where "st0 = updateStats (list_ex isaLoadInst (instsOf f bb))
      (list_ex isaStoreInst (instsOf f bb)) (list_ex isaCallInst (instsOf f bb)) st"
  from Cons.prems obtain f1 st1 lg1
    where d: "drainWorklist L PH (sort_key addr (instsOf f bb)) (f, st0, lg) = Inr (f1, st1, lg1)"
      and r: "forBlocks L PH bbs (f1, st1, lg1) = Inr (f', st', lg')"
    unfolding st0_def
    by (cases "drainWorklist L PH (sort_key addr (instsOf f bb)) (f, updateStats (list_ex isaLoadInst (instsOf f bb))
      (list_ex isaStoreInst (instsOf f bb)) (list_ex isaCallInst (instsOf f bb)) st, lg)") (auto simp: Let_def)
  have "NumLoops st0 = NumLoops st \<and> LICMNoPreheader st0 = LICMNoPreheader st"
    by (simp add: st0_def updateStats_def)
  with drainWorklist_loopCounters [OF d] Cons.IH [OF r] show ?case by simp
qed

lemma loopCounters:
  "OptimizeLoop2 L (f, st, lg) = Inr (f', st', lg') \<Longrightarrow> list_all innermostIfNoPreheader (loopsOf L) \<Longrightarrow>
     NumLoops st' = NumLoops st + of_nat (length (loopsOf L)) \<and>
     LICMNoPreheader st' = LICMNoPreheader st + of_nat (length (filter lacksPreheader (loopsOf L)))"
  "OptimizeSubLoops Ls (f, st, lg) = Inr (f', st', lg') \<Longrightarrow> list_all innermostIfNoPreheader (loopsIn Ls) \<Longrightarrow>
     NumLoops st' = NumLoops st + of_nat (length (loopsIn Ls)) \<and>
     LICMNoPreheader st' = LICMNoPreheader st + of_nat (length (filter lacksPreheader (loopsIn Ls)))"
proof (induction L and Ls arbitrary: f st lg f' st' lg' and f st lg f' st' lg' rule: loopsOf_loopsIn.induct)
  case (1 preheader bbs subloops)
  show ?case
  proof (cases preheader)
    case None
    with "1.prems" have "subloops = []"
      by (simp add: innermostIfNoPreheader_def lacksPreheader_def)
    with None "1.prems" show ?thesis by (auto simp: lacksPreheader_def)
  next
    case (Some PH)
    with "1.prems"(1) obtain f1 st1 lg1
      where a: "OptimizeSubLoops subloops (f, st\<lparr>NumLoops := NumLoops st + 1\<rparr>, lg) = Inr (f1, st1, lg1)"
        and b: "forBlocks (Loop preheader bbs subloops) PH bbs (f1, st1, lg1) = Inr (f', st', lg')"
      by (cases "OptimizeSubLoops subloops (f, st\<lparr>NumLoops := NumLoops st + 1\<rparr>, lg)") (auto simp: Let_def)
    from "1.prems"(2) have "list_all innermostIfNoPreheader (loopsIn subloops)" by simp
    from "1.IH" [OF a this] forBlocks_loopCounters [OF b] Some show ?thesis
      by (simp add: lacksPreheader_def)
  qed
next
  case 2
  then show ?case by simp
next
  case (3 L Ls)
  from "3.prems"(1) obtain f1 st1 lg1
    where a: "OptimizeLoop2 L (f, st, lg) = Inr (f1, st1, lg1)"
      and b: "OptimizeSubLoops Ls (f1, st1, lg1) = Inr (f', st', lg')"
    by (cases "OptimizeLoop2 L (f, st, lg)") auto
  from "3.prems"(2) have "list_all innermostIfNoPreheader (loopsOf L)"
    "list_all innermostIfNoPreheader (loopsIn Ls)" by simp_all
  with "3.IH"(1) [OF a] "3.IH"(2) [OF b] show ?case by simp
qed

lemma RunLICMBasic_loopCounters:
  "RunLICMBasic M (st, lg) = Inr (M', st', lg') \<Longrightarrow> list_all innermostIfNoPreheader (loopsOfModule M) \<Longrightarrow>
     NumLoops st' = NumLoops st + of_nat (length (loopsOfModule M)) \<and>
     LICMNoPreheader st' = LICMNoPreheader st + of_nat (length (filter lacksPreheader (loopsOfModule M)))"
proof (induction M arbitrary: st lg M')
  case Nil
  then show ?case by (simp add: loopsOfModule_def)
next
  case (Cons a M)
  obtain F LI where a: "a = (F, LI)" by (cases a)
  show ?case
  proof (cases "F = []")
    case True
    with Cons.prems(1) a obtain M1 where r: "RunLICMBasic M (st, lg) = Inr (M1, st', lg')"
      by (cases "RunLICMBasic M (st, lg)") auto
    from Cons.prems(2) a True have "list_all innermostIfNoPreheader (loopsOfModule M)"
      by (simp add: loopsOfModule_def)
    from Cons.IH [OF r this] a True show ?thesis by (simp add: loopsOfModule_def)
  next
    case False
    with Cons.prems(1) a obtain F1 st1 lg1 M1
      where o: "OptimizeSubLoops LI (F, st, lg) = Inr (F1, st1, lg1)"
        and r: "RunLICMBasic M (st1, lg1) = Inr (M1, st', lg')"
      by (cases "OptimizeSubLoops LI (F, st, lg)"; cases "RunLICMBasic M (snd (projr (OptimizeSubLoops LI (F, st, lg))))")
         auto
    from Cons.prems(2) a False have 1: "list_all innermostIfNoPreheader (loopsIn LI)"
      and 2: "list_all innermostIfNoPreheader (loopsOfModule M)"
      by (simp_all add: loopsOfModule_def)
    from loopCounters(2) [OF o 1] Cons.IH [OF r 2] a False show ?thesis
      by (simp add: loopsOfModule_def)
  qed
qed

lemma OptimizeSubLoops_outOf:
  assumes "OptimizeSubLoops LI (F, st, lg) = Inr (F', st', lg')"
    and "list_all (\<lambda>r. \<not> lacksPreheader (outOf r)) lg"
  shows "list_all (\<lambda>r. \<not> lacksPreheader (outOf r)) lg'"
proof (rule OptimizeSubLoops_lift2 [where \<Phi> = "\<lambda>g t l. list_all (\<lambda>r. \<not> lacksPreheader (outOf r)) l", OF _ _ assms])
  fix L PH i f st lg f' st' lg'
  assume "list_all (\<lambda>r. \<not> lacksPreheader (outOf r)) lg" "getLoopPreheader L = Some PH"
    "visitInst L PH i (f, st, lg) = Inr (f', st', lg')"
  then show "list_all (\<lambda>r. \<not> lacksPreheader (outOf r)) lg'"
    using visitInst_cases [of L PH i f st lg f' st' lg'] by (auto simp: lacksPreheader_def)
qed

subsection \<open>A run on an orderly module ends in a quiet placement\<close>

lemma settledAll_iff: "settledAll Ls f = (\<forall>L \<in> set Ls. settled L f)"
  by (induction Ls) auto

lemma stuck_member: "stuck L f x \<Longrightarrow> x \<in> set (loopInsts L f)"
  by (cases rule: stuck.cases) auto

lemma loopInsts_iff: "x \<in> set (loopInsts L f) \<longleftrightarrow> (\<exists>b \<in> set (loopBlocks L). x \<in> set (instsOf f b))"
  by (auto simp: loopInsts_def)

lemma member_contains:
  assumes "wfFunc f" and "x \<in> set (loopInsts L f)"
  shows "contains L f (addr x)"
proof -
  from assms(2) obtain b where "b \<in> set (loopBlocks L)" "x \<in> set (instsOf f b)"
    by (auto simp: loopInsts_iff)
  with getParent_of_member [OF assms(1), of x b] show ?thesis by (simp add: contains_def)
qed

lemma stuck_not_accepts:
  assumes wf: "wfFunc f" and s: "stuck L f x"
  shows "\<not> accepts L f x"
  using s
proof (cases rule: stuck.cases)
  case static
  then show ?thesis using accepts_hoistable by blast
next
  case (blocked a)
  then show ?thesis
    by (simp add: accepts_def NotALoadOrStore_def CanMoveOutofLoop_iff)
next
  case (operand d)
  from member_contains [OF wf operand(4)] have "\<not> isLoopInvariant L f (Result (addr d))" by simp
  with operand(3) have "\<not> list_all (isLoopInvariant L f) (operands x)"
    unfolding list_all_iff by blast
  with operand(2) show ?thesis by (simp add: accepts_def AreAllOperandsLoopInvaraint_def)
qed

lemma stuck_transfer:
  assumes "stuck L f x"
    and keep: "\<And>y. stuck L f y \<Longrightarrow> y \<in> set (loopInsts L f')"
    and blk: "\<And>a. list_ex (blocksLoad f a) (loopInsts L f) \<Longrightarrow> list_ex (blocksLoad f' a) (loopInsts L f')"
  shows "stuck L f' x"
  using assms(1)
proof (induction rule: stuck.induct)
  case (static x)
  then show ?case using keep [OF stuck.static] by (auto intro: stuck.static)
next
  case (blocked x a)
  then show ?case using keep [OF stuck.blocked] blk by (auto intro: stuck.blocked)
next
  case (operand x d)
  have "x \<in> set (loopInsts L f')"
    using keep [OF stuck.operand [OF operand(1-5)]] .
  moreover have "d \<in> set (loopInsts L f')" using keep [OF operand(5)] .
  ultimately show ?case using operand by (auto intro: stuck.operand)
qed

lemma loopInsts_mono:
  "set (loopBlocks K) \<subseteq> set (loopBlocks L) \<Longrightarrow> set (loopInsts K f) \<subseteq> set (loopInsts L f)"
  unfolding subset_iff loopInsts_iff by blast

lemma stuck_mono:
  assumes sub: "set (loopBlocks K) \<subseteq> set (loopBlocks L)" and "stuck K f x"
  shows "stuck L f x"
  using assms(2)
proof (induction rule: stuck.induct)
  case (static x)
  then have "x \<in> set (loopInsts L f)" using loopInsts_mono [OF sub] by blast
  with static show ?case by (auto intro: stuck.static)
next
  case (blocked x a)
  then have "list_ex (blocksLoad f a) (loopInsts L f)"
    using loopInsts_mono [OF sub, of f] by (auto simp: list_ex_iff)
  moreover from blocked have "x \<in> set (loopInsts L f)" using loopInsts_mono [OF sub] by blast
  ultimately show ?case using blocked by (auto intro: stuck.blocked)
next
  case (operand x d)
  then have "x \<in> set (loopInsts L f)" "d \<in> set (loopInsts L f)"
    using loopInsts_mono [OF sub] by blast+
  with operand show ?case by (auto intro: stuck.operand)
qed

lemma blocksLoad_cong:
  "(\<And>v. isaAllocaInst f' v = isaAllocaInst f v) \<Longrightarrow> blocksLoad f' a s = blocksLoad f a s"
  by (cases "kind s") (simp_all add: blocksLoad_def)

lemma stuck_cong:
  assumes same: "\<And>b. b \<in> set (loopBlocks L) \<Longrightarrow> instsOf f' b = instsOf f b"
    and al: "\<And>v. isaAllocaInst f' v = isaAllocaInst f v"
    and s: "stuck L f x"
  shows "stuck L f' x"
proof -
  have e: "loopInsts L f' = loopInsts L f"
    unfolding loopInsts_def using same by (auto intro: arg_cong [where f = concat])
  show ?thesis
  proof (rule stuck_transfer [OF s])
    fix y assume "stuck L f y"
    then show "y \<in> set (loopInsts L f')" using stuck_member e by simp
  next
    fix a assume "list_ex (blocksLoad f a) (loopInsts L f)"
    then show "list_ex (blocksLoad f' a) (loopInsts L f')"
      using e blocksLoad_cong [of f' f, OF al] by (simp add: list_ex_iff)
  qed
qed

lemma orderly_sub_blocks:
  assumes "orderly (Loop (Some PH) bbs subs)" and "S \<in> set subs" and "getLoopPreheader S = Some p"
  shows "p \<in> set bbs" and "set (loopBlocks S) \<subseteq> set bbs" and "orderly S"
proof -
  from assms(1,2) have a: "list_all (\<lambda>b. b \<in> set bbs) (spanOf S)" and o: "orderlyLoops subs"
    by (auto simp: list_all_iff)
  from a assms(3) show "p \<in> set bbs" "set (loopBlocks S) \<subseteq> set bbs"
    by (auto simp: spanOf_def list_all_iff)
  have "orderlyLoops Ls \<Longrightarrow> S \<in> set Ls \<Longrightarrow> orderly S" for Ls
    by (induction Ls) auto
  with o assms(2) show "orderly S" by blast
qed

lemma orderlyLoops_member: "orderlyLoops Ls \<Longrightarrow> S \<in> set Ls \<Longrightarrow> orderly S"
  by (induction Ls) auto

lemma settled_cong:
  "orderly K \<Longrightarrow> (\<And>b. b \<in> set (loopBlocks K) \<Longrightarrow> instsOf f' b = instsOf f b) \<Longrightarrow>
     (\<And>v. isaAllocaInst f' v = isaAllocaInst f v) \<Longrightarrow> settled K f \<Longrightarrow> settled K f'"
proof (induction K)
  case (Loop ph bbs subs)
  show ?case
  proof (cases ph)
    case None
    then show ?thesis by simp
  next
    case (Some PH)
    let ?K = "Loop ph bbs subs"
    have e: "loopInsts ?K f' = loopInsts ?K f"
      unfolding loopInsts_def using Loop.prems(2) by (auto intro: arg_cong [where f = concat])
    have 1: "\<forall>x \<in> set (loopInsts ?K f'). stuck ?K f' x"
    proof
      fix x assume "x \<in> set (loopInsts ?K f')"
      with e Loop.prems(4) Some have "stuck ?K f x" by simp
      then show "stuck ?K f' x"
        using stuck_cong [of ?K f' f x] Loop.prems(2,3) by blast
    qed
    have 2: "settled S f'" if S: "S \<in> set subs" for S
    proof (cases "getLoopPreheader S")
      case None
      then show ?thesis by (cases S) simp
    next
      case (Some p)
      from Loop.prems(1) \<open>ph = Some PH\<close> have o: "orderly (Loop (Some PH) bbs subs)" by simp
      note ob = orderly_sub_blocks [OF o S Some]
      have "settled S f" using Loop.prems(4) \<open>ph = Some PH\<close> S by (simp add: settledAll_iff)
      with Loop.IH [OF S ob(3)] Loop.prems(2,3) ob(2) show ?thesis by auto
    qed
    from 1 2 Some show ?thesis by (simp add: settledAll_iff)
  qed
qed

lemma settled_quiet:
  "wfFunc f \<Longrightarrow> settled L f \<Longrightarrow> quietLoop L f"
  "wfFunc f \<Longrightarrow> settledAll Ls f \<Longrightarrow> quietLoops Ls f"
proof (induction L f and Ls f rule: quietLoop_quietLoops.induct)
  case (1 preheader bbs subloops f)
  show ?case
  proof (cases preheader)
    case None
    then show ?thesis by simp
  next
    case (Some PH)
    with "1.prems" "1.IH" show ?thesis
      by (auto simp: list_all_iff dest: stuck_not_accepts)
  qed
qed simp_all


lemma relink_instsOf_other:
  assumes "wfFunc f" and "dst \<in> set (instsOf f p)" and "b \<noteq> p"
  shows "instsOf (relink j' j dst f) b = removeAll j (instsOf f b)"
proof -
  have "dst \<notin> set (instsOf f b)" using in_one_block [OF assms(1) _ assms(2)] assms(3) by blast
  then have "dst \<notin> set (removeAll j (instsOf f b))" by simp
  then show ?thesis by (simp add: instsOf_relink insertBefore_absent)
qed

lemma accepts_operands: "accepts L f j \<Longrightarrow> AreAllOperandsLoopInvaraint L f j"
proof (cases "NotALoadOrStore j")
  case True
  assume "accepts L f j"
  with True show ?thesis by (simp add: accepts_def)
next
  case False
  assume a: "accepts L f j"
  with False obtain v where k: "kind j = LoadInst v" and c: "CanMoveOutofLoop L f j v"
    by (auto simp: accepts_def split: kind.splits)
  from c have "isaGlobalVariable v" by (simp add: CanMoveOutofLoop_iff)
  then have "isLoopInvariant L f v" by (cases v) auto
  with k show ?thesis by (simp add: AreAllOperandsLoopInvaraint_def operands_def)
qed

lemma defsFirstD:
  assumes "defsFirst f" and "i \<in> set (allInsts f)" and "d \<in> set (allInsts f)"
    and "hoistable i" and "hoistable d" and "Result (addr d) \<in> set (operands i)"
  shows "usesBefore f d i"
  using assms unfolding defsFirst_def list_all_iff by blast

lemma alike_operands: "alike i i' \<Longrightarrow> operands i' = operands i"
  using alike_fields(2) [of i i'] by (simp add: operands_def)

lemma defsFirst_relink:
  assumes wf: "wfFunc g" and df: "defsFirst g"
    and j: "j \<in> set (instsOf g bb)" and bb: "bb \<in> set bbs"
    and iv: "bbs = [Suc PH ..< Suc PH + length bbs]"
    and dst: "dst \<in> set (instsOf g PH)" and ne: "j \<noteq> dst" and al: "alike j j'"
    and inv: "AreAllOperandsLoopInvaraint (Loop (Some PH) bbs subs) g j"
  shows "defsFirst (relink j' j dst g)"
proof -
  let ?g = "relink j' j dst g"
  let ?L = "Loop (Some PH) bbs subs"
  have ja: "j \<in> set (allInsts g)" using j instsOf_subset by blast
  have da: "dst \<in> set (allInsts g)" using dst instsOf_subset by blast
  have a: "addr j' = addr j" using al by (rule alike_fields)
  have s: "set (allInsts ?g) = insert j' (set (allInsts g) - {j})"
    using da ne by (rule set_allInsts_relink)
  have gp: "getParent ?g x = (if x = addr j then Some PH else getParent g x)" for x
    using wf ja dst ne a by (rule getParent_relink)
  have pj: "getParent g (addr j) = Some bb" using wf j by (rule getParent_of_member)
  have sb: "set bbs = {Suc PH ..< Suc PH + length bbs}" using iv set_upt by metis
  with bb have lo: "PH < bb" by auto
  have orig: "\<exists>i0 \<in> set (allInsts g). alike i0 i \<and> (addr i = addr j \<longrightarrow> i0 = j)"
    if "i \<in> set (allInsts ?g)" for i
  proof (cases "i = j'")
    case True
    with ja al show ?thesis by blast
  next
    case False
    with that s have i: "i \<in> set (allInsts g)" "i \<noteq> j" by auto
    with wf ja have "addr i \<noteq> addr j" using wfFunc_same_addr by blast
    with i(1) alike_refl [of i] show ?thesis by blast
  qed
  show ?thesis
    unfolding defsFirst_def list_all_iff
  proof (intro ballI impI)
    fix i d
    assume i: "i \<in> set (allInsts ?g)" and d: "d \<in> set (allInsts ?g)"
      and h: "hoistable i \<and> hoistable d \<and> Result (addr d) \<in> set (operands i)"
    from orig [OF i] obtain i0 where i0: "i0 \<in> set (allInsts g)" "alike i0 i"
      "addr i = addr j \<longrightarrow> i0 = j" by blast
    from orig [OF d] obtain d0 where d0: "d0 \<in> set (allInsts g)" "alike d0 d"
      "addr d = addr j \<longrightarrow> d0 = j" by blast
    have ai: "addr i = addr i0" and ad: "addr d = addr d0"
      using alike_fields(1) [OF i0(2)] alike_fields(1) [OF d0(2)] by simp_all
    have hi: "hoistable i0" and hd: "hoistable d0"
      using h alike_hoistable [OF i0(2)] alike_hoistable [OF d0(2)] by simp_all
    have op: "Result (addr d0) \<in> set (operands i0)"
      using h alike_operands [OF i0(2)] ad by simp
    from defsFirstD [OF df i0(1) d0(1) hi hd op] obtain bd bi
      where lt: "addr d0 < addr i0" and pd: "getParent g (addr d0) = Some bd"
        and pi: "getParent g (addr i0) = Some bi" and le: "bd \<le> bi"
      by (auto simp: usesBefore_def split: option.splits)
    show "usesBefore ?g d i"
    proof (cases "addr d = addr j")
      case dj: True
      with lt ai ad have nij: "addr i \<noteq> addr j" by auto
      from dj d0(3) pd pj have "bd = bb" by simp
      with lo le have "PH \<le> bi" by simp
      with dj nij lt ai ad pi show ?thesis by (simp add: usesBefore_def gp)
    next
      case ndj: False
      show ?thesis
      proof (cases "addr i = addr j")
        case True
        with i0(3) pi pj have bi: "bi = bb" by simp
        from True i0(3) op have "Result (addr d0) \<in> set (operands j)" by simp
        with inv have "isLoopInvariant ?L g (Result (addr d0))"
          by (auto simp: AreAllOperandsLoopInvaraint_def list_all_iff)
        with pd have "bd \<notin> set bbs" by (simp add: contains_def)
        with le bi bb sb have "bd \<le> PH" by auto
        with True ndj lt ai ad pd show ?thesis by (simp add: usesBefore_def gp)
      next
        case False
        with ndj lt ai ad pd pi le show ?thesis by (simp add: usesBefore_def gp)
      qed
    qed
  qed
qed

lemma exam_stuck:
  assumes wf: "wfFunc g" and df: "defsFirst g"
    and j: "j \<in> set (instsOf g bb)" and bb: "bb \<in> set (loopBlocks L)"
    and na: "\<not> accepts L g j"
    and prior: "\<forall>b \<in> set (loopBlocks L). b < bb \<longrightarrow> (\<forall>y \<in> set (instsOf g b). stuck L g y)"
    and cur: "\<forall>y \<in> set (instsOf g bb). y \<notin> set (j # rest) \<longrightarrow> stuck L g y"
    and so: "sorted (map addr (j # rest))"
  shows "stuck L g j"
proof -
  have jl: "j \<in> set (loopInsts L g)" using j bb by (auto simp: loopInsts_iff)
  have pj: "getParent g (addr j) = Some bb" using wf j by (rule getParent_of_member)
  show ?thesis
  proof (cases "hoistable j")
    case False
    with jl show ?thesis by (rule stuck.static)
  next
    case h: True
    show ?thesis
    proof (cases "NotALoadOrStore j")
      case False
      with h obtain a where k: "kind j = LoadInst a"
        by (auto simp: NotALoadOrStore_def hoistable_def split: kind.splits if_splits)
      with h have "\<not> isVolatile j" "isaGlobalVariable a" by (simp_all add: hoistable_def)
      with na k False have "list_ex (blocksLoad g a) (loopInsts L g)"
        by (simp add: accepts_def CanMoveOutofLoop_iff)
      with jl k show ?thesis by (rule stuck.blocked)
    next
      case n: True
      with h have fl: "isSafeToSpeculativelyExecute j \<and> \<not> mayReadFromMemory j \<and> \<not> isEHPad j"
        by (auto simp: NotALoadOrStore_def hoistable_def split: kind.splits if_splits)
      have "contains L g (addr j)" using wf jl by (rule member_contains)
      with na n fl have "\<not> list_all (isLoopInvariant L g) (operands j)"
        by (simp add: accepts_def AreAllOperandsLoopInvaraint_def)
      then obtain v where v: "v \<in> set (operands j)" "\<not> isLoopInvariant L g v"
        by (auto simp: list_all_iff)
      from v(2) obtain a where va: "v = Result a" and c: "contains L g a" by (cases v) auto
      from c obtain b where pb: "getParent g a = Some b" and bl: "b \<in> set (loopBlocks L)"
        by (auto simp: contains_def split: option.splits)
      from wf have "distinct (map fst g)" by (simp add: wfFunc_def)
      from getParent_SomeD [OF this pb] obtain d where d: "d \<in> set (instsOf g b)" "addr d = a"
        by blast
      have dl: "d \<in> set (loopInsts L g)" using d(1) bl by (auto simp: loopInsts_iff)
      have sd: "stuck L g d"
      proof (cases "hoistable d")
        case False
        with dl show ?thesis by (rule stuck.static)
      next
        case True
        have "j \<in> set (allInsts g)" "d \<in> set (allInsts g)"
          using j d(1) instsOf_subset by blast+
        from defsFirstD [OF df this h True] v(1) va d(2)
        have ub: "usesBefore g d j" by simp
        with pj pb d(2) have lt: "addr d < addr j" and le: "b \<le> bb"
          by (auto simp: usesBefore_def)
        show ?thesis
        proof (cases "b < bb")
          case True
          with prior bl d(1) show ?thesis by blast
        next
          case False
          with le have "b = bb" by simp
          from so have "\<forall>x \<in> set (j # rest). addr j \<le> addr x" by auto
          with lt have "d \<notin> set (j # rest)" by auto
          with cur d(1) \<open>b = bb\<close> show ?thesis by blast
        qed
      qed
      from v(1) va d(2) have "Result (addr d) \<in> set (operands j)" by simp
      from stuck.operand [OF jl n this dl sd] show ?thesis .
    qed
  qed
qed


lemma settledD:
  "settled S f \<Longrightarrow> getLoopPreheader S = Some p \<Longrightarrow> x \<in> set (loopInsts S f) \<Longrightarrow> stuck S f x"
  by (cases S) auto

lemma settled_no_preheader: "getLoopPreheader S = None \<Longrightarrow> settled S f"
  by (cases S) auto

lemma orderly_interval:
  assumes "orderly (Loop (Some PH) bbs subs)"
  shows "bbs = [Suc PH ..< Suc PH + length bbs]" and "PH \<notin> set bbs"
    and "sorted bbs" and "distinct bbs"
proof -
  from assms show iv: "bbs = [Suc PH ..< Suc PH + length bbs]" by simp
  then have "set bbs = {Suc PH ..< Suc PH + length bbs}" using set_upt by metis
  then show "PH \<notin> set bbs" by auto
  from iv show "sorted bbs" using sorted_upt by metis
  from iv show "distinct bbs" using distinct_upt by metis
qed

lemma drain_settles:
  assumes Ldef: "L = Loop (Some PH) bbs subs" and ord: "orderly L" and bb: "bb \<in> set bbs"
  shows "drainWorklist L PH wl (g, st, lg) = Inr (g', st', lg') \<Longrightarrow>
     wfFunc g \<Longrightarrow> defsFirst g \<Longrightarrow> settledAll subs g \<Longrightarrow>
     (\<forall>b \<in> set bbs. b < bb \<longrightarrow> (\<forall>y \<in> set (instsOf g b). stuck L g y)) \<Longrightarrow>
     (\<forall>y \<in> set (instsOf g bb). y \<notin> set wl \<longrightarrow> stuck L g y) \<Longrightarrow>
     sorted (map addr wl) \<Longrightarrow> distinct wl \<Longrightarrow> set wl \<subseteq> set (instsOf g bb) \<Longrightarrow>
     wfFunc g' \<and> defsFirst g' \<and> settledAll subs g' \<and>
     (\<forall>b \<in> set bbs. b < bb \<longrightarrow> (\<forall>y \<in> set (instsOf g' b). stuck L g' y)) \<and>
     (\<forall>y \<in> set (instsOf g' bb). stuck L g' y) \<and>
     (\<forall>b. b \<notin> set (PH # bbs) \<longrightarrow> instsOf g' b = instsOf g b) \<and>
     (\<forall>v. isaAllocaInst g' v = isaAllocaInst g v)"
proof (induction wl arbitrary: g st lg)
  case Nil
  then show ?case by simp
next
  case (Cons j wl)
  note wf = Cons.prems(2) and df = Cons.prems(3) and ss = Cons.prems(4)
    and prior = Cons.prems(5) and cur = Cons.prems(6)
  from Cons.prems(1) obtain g1 st1 lg1
    where v: "visitInst L PH j (g, st, lg) = Inr (g1, st1, lg1)"
      and r: "drainWorklist L PH wl (g1, st1, lg1) = Inr (g', st', lg')"
    by (cases "visitInst L PH j (g, st, lg)") auto
  from Cons.prems(9) have jm: "j \<in> set (instsOf g bb)" by simp
  then have ja: "j \<in> set (allInsts g)" using instsOf_subset by blast
  have pre: "getLoopPreheader L = Some PH" and lb: "loopBlocks L = bbs" by (simp_all add: Ldef)
  from ord have ord': "orderly (Loop (Some PH) bbs subs)" by (simp add: Ldef)
  note iv = orderly_interval [OF ord']
  from Cons.prems(7) have so1: "sorted (map addr wl)" by simp
  from Cons.prems(8) have dw1: "distinct wl" and jw: "j \<notin> set wl" by simp_all
  show ?case
  proof (cases "accepts L g j")
    case False
    from visitInst_not_accepted [OF pre False, of st lg] v
    have e: "g1 = g" "st1 = st" "lg1 = lg" by simp_all
    have sj: "stuck L g j"
      using wf df jm _ False _ _ Cons.prems(7)
    proof (rule exam_stuck)
      show "bb \<in> set (loopBlocks L)" using bb lb by simp
      show "\<forall>b \<in> set (loopBlocks L). b < bb \<longrightarrow> (\<forall>y \<in> set (instsOf g b). stuck L g y)"
        using prior lb by simp
      show "\<forall>y \<in> set (instsOf g bb). y \<notin> set (j # wl) \<longrightarrow> stuck L g y" using cur .
    qed
    have cur1: "\<forall>y \<in> set (instsOf g bb). y \<notin> set wl \<longrightarrow> stuck L g y"
      using cur sj by auto
    have w1: "set wl \<subseteq> set (instsOf g bb)" using Cons.prems(9) by simp
    from Cons.IH [OF r [unfolded e] wf df ss prior cur1 so1 dw1 w1] show ?thesis .
  next
    case True
    from visitInst_accepted [OF pre True v] obtain dst j'
      where t: "getTerminator g PH = Some dst" and al: "alike j j'" and g1: "g1 = relink j' j dst g"
      by blast
    have dm: "dst \<in> set (instsOf g PH)" using t by (rule getTerminator_SomeD)
    then have da: "dst \<in> set (allInsts g)" using instsOf_subset by blast
    have hj: "hoistable j" using True by (rule accepts_hoistable)
    have ne: "j \<noteq> dst"
      using getTerminator_SomeD(1) [OF t] hoistable_not_terminator [OF hj] by auto
    have aj: "addr j' = addr j" using al by (rule alike_fields)
    have wf1: "wfFunc g1" unfolding g1 using wf ja da ne aj by (rule wfFunc_relink)
    have df1: "defsFirst g1"
      unfolding g1 using wf df jm bb iv(1) dm ne al accepts_operands [OF True, unfolded Ldef]
      by (rule defsFirst_relink)
    have al1: "isaAllocaInst g1 x = isaAllocaInst g x" for x
      unfolding g1 using wf ja da ne al by (rule isaAllocaInst_relink)
    have io: "instsOf g1 b = removeAll j (instsOf g b)" if "b \<noteq> PH" for b
      unfolding g1 using wf dm that by (rule relink_instsOf_other)
    have nsj: "\<not> stuck L g j" using stuck_not_accepts [OF wf] True by blast
    have li: "y \<in> set (loopInsts L g1)" if "y \<in> set (loopInsts L g)" "y \<noteq> j" for y
    proof -
      from that(1) obtain b where b: "b \<in> set bbs" "y \<in> set (instsOf g b)"
        by (auto simp: loopInsts_iff lb)
      with iv(2) have "b \<noteq> PH" by auto
      with io [of b] b(2) that(2) have "y \<in> set (instsOf g1 b)" by simp
      with b(1) show ?thesis unfolding loopInsts_iff lb by blast
    qed
    have tr: "stuck L g1 y" if "stuck L g y" for y
    proof (rule stuck_transfer [OF that])
      fix z assume "stuck L g z"
      then have "z \<in> set (loopInsts L g)" "z \<noteq> j" using stuck_member nsj by auto
      then show "z \<in> set (loopInsts L g1)" by (rule li)
    next
      fix a assume "list_ex (blocksLoad g a) (loopInsts L g)"
      then obtain s where s: "s \<in> set (loopInsts L g)" "blocksLoad g a s"
        by (auto simp: list_ex_iff)
      then have "isaStoreInst s" using blocksLoad_store by blast
      with hj have "s \<noteq> j" using hoistable_not_store by blast
      with s(1) have "s \<in> set (loopInsts L g1)" by (rule li)
      moreover have "blocksLoad g1 a s" using s(2) blocksLoad_cong [of g1 g a s] al1 by simp
      ultimately show "list_ex (blocksLoad g1 a) (loopInsts L g1)" by (auto simp: list_ex_iff)
    qed
    have ss1: "settledAll subs g1"
      unfolding settledAll_iff
    proof
      fix S assume S: "S \<in> set subs"
      show "settled S g1"
      proof (cases "getLoopPreheader S")
        case None
        then show ?thesis by (rule settled_no_preheader)
      next
        case (Some p)
        note ob = orderly_sub_blocks [OF ord' S Some]
        have sg: "settled S g" using ss S by (simp add: settledAll_iff)
        have jn: "j \<notin> set (loopInsts S g)"
        proof
          assume "j \<in> set (loopInsts S g)"
          with sg Some have "stuck S g j" by (rule settledD)
          moreover have "set (loopBlocks S) \<subseteq> set (loopBlocks L)" using ob(2) lb by simp
          ultimately have "stuck L g j" by (rule stuck_mono [rotated])
          with nsj show False by simp
        qed
        have same: "instsOf g1 b = instsOf g b" if "b \<in> set (loopBlocks S)" for b
        proof -
          from that ob(2) iv(2) have "b \<noteq> PH" by auto
          moreover from that jn have "j \<notin> set (instsOf g b)" by (auto simp: loopInsts_iff)
          ultimately show ?thesis using io [of b] by simp
        qed
        from settled_cong [OF ob(3) same al1 sg] show ?thesis .
      qed
    qed
    have prior1: "\<forall>b \<in> set bbs. b < bb \<longrightarrow> (\<forall>y \<in> set (instsOf g1 b). stuck L g1 y)"
    proof (intro ballI impI)
      fix b y assume b: "b \<in> set bbs" "b < bb" and y: "y \<in> set (instsOf g1 b)"
      from b(1) iv(2) have "b \<noteq> PH" by auto
      with io [of b] y have "y \<in> set (instsOf g b)" by simp
      with prior b have "stuck L g y" by blast
      then show "stuck L g1 y" by (rule tr)
    qed
    from bb iv(2) have bp: "bb \<noteq> PH" by auto
    have cur1: "\<forall>y \<in> set (instsOf g1 bb). y \<notin> set wl \<longrightarrow> stuck L g1 y"
    proof (intro ballI impI)
      fix y assume y: "y \<in> set (instsOf g1 bb)" "y \<notin> set wl"
      with io [OF bp] have "y \<in> set (instsOf g bb)" "y \<noteq> j" by auto
      with cur y(2) have "stuck L g y" by auto
      then show "stuck L g1 y" by (rule tr)
    qed
    have w1: "set wl \<subseteq> set (instsOf g1 bb)"
      using Cons.prems(9) jw io [OF bp] by auto
    note ih = Cons.IH [OF r wf1 df1 ss1 prior1 cur1 so1 dw1 w1]
    have fr: "instsOf g1 b = instsOf g b" if "b \<notin> set (PH # bbs)" for b
    proof -
      from that bb have "b \<noteq> PH" "b \<noteq> bb" by auto
      with in_one_block [OF wf jm, of b] have "j \<notin> set (instsOf g b)" by auto
      with io [of b] \<open>b \<noteq> PH\<close> show ?thesis by simp
    qed
    from ih fr al1 show ?thesis by simp
  qed
qed

lemma blocks_settle:
  assumes Ldef: "L = Loop (Some PH) bbs subs" and ord: "orderly L"
  shows "forBlocks L PH rest (g, st, lg) = Inr (g', st', lg') \<Longrightarrow>
     wfFunc g \<Longrightarrow> defsFirst g \<Longrightarrow> settledAll subs g \<Longrightarrow>
     sorted rest \<Longrightarrow> distinct rest \<Longrightarrow> set rest \<subseteq> set bbs \<Longrightarrow>
     (\<forall>b \<in> set bbs. b \<notin> set rest \<longrightarrow> (\<forall>r \<in> set rest. b < r)) \<Longrightarrow>
     (\<forall>b \<in> set bbs. b \<notin> set rest \<longrightarrow> (\<forall>y \<in> set (instsOf g b). stuck L g y)) \<Longrightarrow>
     wfFunc g' \<and> defsFirst g' \<and> settledAll subs g' \<and>
     (\<forall>b \<in> set bbs. \<forall>y \<in> set (instsOf g' b). stuck L g' y) \<and>
     (\<forall>b. b \<notin> set (PH # bbs) \<longrightarrow> instsOf g' b = instsOf g b) \<and>
     (\<forall>v. isaAllocaInst g' v = isaAllocaInst g v)"
proof (induction rest arbitrary: g st lg)
  case Nil
  then show ?case by simp
next
  case (Cons bb rest)
  note wf = Cons.prems(2) and df = Cons.prems(3) and ss = Cons.prems(4)
    and ahead = Cons.prems(8) and finished = Cons.prems(9)
  define st0 where "st0 = updateStats (list_ex isaLoadInst (instsOf g bb))
      (list_ex isaStoreInst (instsOf g bb)) (list_ex isaCallInst (instsOf g bb)) st"
  from Cons.prems(1) obtain g1 st1 lg1
    where d: "drainWorklist L PH (sort_key addr (instsOf g bb)) (g, st0, lg) = Inr (g1, st1, lg1)"
      and r: "forBlocks L PH rest (g1, st1, lg1) = Inr (g', st', lg')"
    unfolding st0_def
    by (cases "drainWorklist L PH (sort_key addr (instsOf g bb)) (g, updateStats (list_ex isaLoadInst (instsOf g bb))
      (list_ex isaStoreInst (instsOf g bb)) (list_ex isaCallInst (instsOf g bb)) st, lg)") (auto simp: Let_def)
  from Cons.prems(7) have bb: "bb \<in> set bbs" by simp
  from Cons.prems(5) have lo: "\<forall>r \<in> set rest. bb \<le> r" and so1: "sorted rest" by simp_all
  from Cons.prems(6) have nb: "bb \<notin> set rest" and di1: "distinct rest" by simp_all
  have prior: "\<forall>b \<in> set bbs. b < bb \<longrightarrow> (\<forall>y \<in> set (instsOf g b). stuck L g y)"
  proof (intro ballI impI)
    fix b y assume b: "b \<in> set bbs" "b < bb" and y: "y \<in> set (instsOf g b)"
    from b(2) lo have "b \<notin> set (bb # rest)" by auto
    with finished b(1) y show "stuck L g y" by blast
  qed
  have cur: "\<forall>y \<in> set (instsOf g bb). y \<notin> set (sort_key addr (instsOf g bb)) \<longrightarrow> stuck L g y"
    by simp
  have "distinct (allInsts g)" using wf by (simp add: wfFunc_def distinct_map)
  then have dw: "distinct (sort_key addr (instsOf g bb))" by (simp add: distinct_instsOf)
  have sw: "sorted (map addr (sort_key addr (instsOf g bb)))" by simp
  have subw: "set (sort_key addr (instsOf g bb)) \<subseteq> set (instsOf g bb)" by simp
  note dr = drain_settles [OF Ldef ord bb d wf df ss prior cur sw dw subw]
  then have wf1: "wfFunc g1" and df1: "defsFirst g1" and ss1: "settledAll subs g1"
    and prior1: "\<forall>b \<in> set bbs. b < bb \<longrightarrow> (\<forall>y \<in> set (instsOf g1 b). stuck L g1 y)"
    and cur1: "\<forall>y \<in> set (instsOf g1 bb). stuck L g1 y"
    and fr1: "\<forall>b. b \<notin> set (PH # bbs) \<longrightarrow> instsOf g1 b = instsOf g b"
    and al1: "\<forall>v. isaAllocaInst g1 v = isaAllocaInst g v"
    by simp_all
  have sub1: "set rest \<subseteq> set bbs" using Cons.prems(7) by simp
  have ahead1: "\<forall>b \<in> set bbs. b \<notin> set rest \<longrightarrow> (\<forall>r \<in> set rest. b < r)"
  proof (intro ballI impI)
    fix b r assume b: "b \<in> set bbs" "b \<notin> set rest" and r: "r \<in> set rest"
    show "b < r"
    proof (cases "b = bb")
      case True
      with lo r nb show ?thesis by (metis le_neq_implies_less)
    next
      case False
      with b ahead r show ?thesis by simp
    qed
  qed
  have finished1: "\<forall>b \<in> set bbs. b \<notin> set rest \<longrightarrow> (\<forall>y \<in> set (instsOf g1 b). stuck L g1 y)"
  proof (intro ballI impI)
    fix b y assume b: "b \<in> set bbs" "b \<notin> set rest" and y: "y \<in> set (instsOf g1 b)"
    show "stuck L g1 y"
    proof (cases "b = bb")
      case True
      with cur1 y show ?thesis by simp
    next
      case False
      with b ahead have "b < bb" by simp
      with prior1 b(1) y show ?thesis by blast
    qed
  qed
  from Cons.IH [OF r wf1 df1 ss1 so1 di1 sub1 ahead1 finished1] fr1 al1 show ?case by simp
qed

lemma loops_settle:
  "orderly L \<Longrightarrow> wfFunc f \<Longrightarrow> defsFirst f \<Longrightarrow> OptimizeLoop2 L (f, st, lg) = Inr (f', st', lg') \<Longrightarrow>
     wfFunc f' \<and> defsFirst f' \<and> settled L f' \<and>
     (\<forall>b. b \<notin> set (spanOf L) \<longrightarrow> instsOf f' b = instsOf f b) \<and>
     (\<forall>v. isaAllocaInst f' v = isaAllocaInst f v)"
  "orderlyLoops Ls \<Longrightarrow> wfFunc f \<Longrightarrow> defsFirst f \<Longrightarrow> OptimizeSubLoops Ls (f, st, lg) = Inr (f', st', lg') \<Longrightarrow>
     wfFunc f' \<and> defsFirst f' \<and> settledAll Ls f' \<and>
     (\<forall>b. (\<forall>K \<in> set Ls. b \<notin> set (spanOf K)) \<longrightarrow> instsOf f' b = instsOf f b) \<and>
     (\<forall>v. isaAllocaInst f' v = isaAllocaInst f v)"
proof (induction L and Ls arbitrary: f st lg f' st' lg' and f st lg f' st' lg'
    rule: orderly_orderlyLoops.induct)
  case (1 preheader bbs subloops)
  show ?case
  proof (cases preheader)
    case None
    with "1.prems" show ?thesis by auto
  next
    case (Some PH)
    let ?L = "Loop preheader bbs subloops"
    have Ldef: "?L = Loop (Some PH) bbs subloops" using Some by simp
    from "1.prems"(4) Some obtain f1 st1 lg1
      where a: "OptimizeSubLoops subloops (f, st\<lparr>NumLoops := NumLoops st + 1\<rparr>, lg) = Inr (f1, st1, lg1)"
        and b: "forBlocks ?L PH bbs (f1, st1, lg1) = Inr (f', st', lg')"
      by (cases "OptimizeSubLoops subloops (f, st\<lparr>NumLoops := NumLoops st + 1\<rparr>, lg)") (auto simp: Let_def)
    from "1.prems"(1) Some have os: "orderlyLoops subloops"
      and inside: "\<forall>S \<in> set subloops. set (spanOf S) \<subseteq> set bbs"
      by (auto simp: list_all_iff)
    from "1.prems"(1) Some have ord': "orderly (Loop (Some PH) bbs subloops)" by simp
    note iv = orderly_interval [OF ord']
    note ih = "1.IH" [OF Some os "1.prems"(2,3) a]
    then have wf1: "wfFunc f1" and df1: "defsFirst f1" and ss1: "settledAll subloops f1"
      and fr1: "\<forall>b. (\<forall>K \<in> set subloops. b \<notin> set (spanOf K)) \<longrightarrow> instsOf f1 b = instsOf f b"
      and al1: "\<forall>v. isaAllocaInst f1 v = isaAllocaInst f v"
      by simp_all
    have "wfFunc f' \<and> defsFirst f' \<and> settledAll subloops f' \<and>
       (\<forall>b \<in> set bbs. \<forall>y \<in> set (instsOf f' b). stuck ?L f' y) \<and>
       (\<forall>b. b \<notin> set (PH # bbs) \<longrightarrow> instsOf f' b = instsOf f1 b) \<and>
       (\<forall>v. isaAllocaInst f' v = isaAllocaInst f1 v)"
      using Ldef "1.prems"(1) b wf1 df1 ss1 iv(3) iv(4)
      by (rule blocks_settle) simp_all
    then have wf': "wfFunc f'" and df': "defsFirst f'" and ss': "settledAll subloops f'"
      and st: "\<forall>b \<in> set bbs. \<forall>y \<in> set (instsOf f' b). stuck ?L f' y"
      and fr2: "\<forall>b. b \<notin> set (PH # bbs) \<longrightarrow> instsOf f' b = instsOf f1 b"
      and al2: "\<forall>v. isaAllocaInst f' v = isaAllocaInst f1 v"
      by simp_all
    have se: "settled ?L f'" using Some st ss' by (auto simp: loopInsts_iff)
    have fr: "instsOf f' b = instsOf f b" if "b \<notin> set (spanOf ?L)" for b
    proof -
      from that Some have o: "b \<notin> set (PH # bbs)" by (simp add: spanOf_def)
      with inside have "\<forall>K \<in> set subloops. b \<notin> set (spanOf K)" by auto
      with fr1 fr2 o show ?thesis by simp
    qed
    from wf' df' se fr al1 al2 show ?thesis by simp
  qed
next
  case 2
  then show ?case by simp
next
  case (3 L Ls)
  from "3.prems"(4) obtain g st1 lg1
    where a: "OptimizeLoop2 L (f, st, lg) = Inr (g, st1, lg1)"
      and b: "OptimizeSubLoops Ls (g, st1, lg1) = Inr (f', st', lg')"
    by (cases "OptimizeLoop2 L (f, st, lg)") auto
  from "3.prems"(1) have oL: "orderly L" and oLs: "orderlyLoops Ls"
    and ap: "\<forall>K \<in> set Ls. \<forall>b \<in> set (spanOf L). b \<notin> set (spanOf K)"
    by (auto simp: list_all_iff)
  note ih1 = "3.IH"(1) [OF oL "3.prems"(2,3) a]
  then have wfg: "wfFunc g" and dfg: "defsFirst g" and sL: "settled L g"
    and frL: "\<forall>b. b \<notin> set (spanOf L) \<longrightarrow> instsOf g b = instsOf f b"
    and alL: "\<forall>v. isaAllocaInst g v = isaAllocaInst f v"
    by simp_all
  note ih2 = "3.IH"(2) [OF oLs wfg dfg b]
  then have wf': "wfFunc f'" and df': "defsFirst f'" and sLs: "settledAll Ls f'"
    and frLs: "\<forall>b. (\<forall>K \<in> set Ls. b \<notin> set (spanOf K)) \<longrightarrow> instsOf f' b = instsOf g b"
    and alLs: "\<forall>v. isaAllocaInst f' v = isaAllocaInst g v"
    by simp_all
  have sL': "settled L f'"
  proof (cases "getLoopPreheader L")
    case None
    then show ?thesis by (rule settled_no_preheader)
  next
    case (Some p)
    have same: "instsOf f' b = instsOf g b" if "b \<in> set (loopBlocks L)" for b
    proof -
      from that Some have "b \<in> set (spanOf L)" by (simp add: spanOf_def)
      with ap have "\<forall>K \<in> set Ls. b \<notin> set (spanOf K)" by blast
      with frLs show ?thesis by simp
    qed
    from settled_cong [OF oL same _ sL] alLs show ?thesis by simp
  qed
  from wf' df' sL' sLs frL frLs alL alLs show ?case by simp
qed

lemma loopInsts_empty: "loopInsts L [] = []"
  unfolding loopInsts_def by (induction "loopBlocks L") auto

lemma quietLoops_empty:
  "quietLoop L []"
  "quietLoops Ls []"
  by (induction L "[] :: func" and Ls "[] :: func" rule: quietLoop_quietLoops.induct)
     (auto simp: loopInsts_empty split: option.splits)

lemma RunLICMBasic_settles:
  "RunLICMBasic M (st, lg) = Inr (M', st', lg') \<Longrightarrow> orderlyModule M \<Longrightarrow> quietModule M'"
proof (induction M arbitrary: st lg M')
  case Nil
  then show ?case by (simp add: quietModule_def)
next
  case (Cons a M)
  obtain F LI where a: "a = (F, LI)" by (cases a)
  from Cons.prems(2) a have wf: "wfFunc F" and df: "defsFirst F" and ol: "orderlyLoops LI"
    and om: "orderlyModule M"
    by (simp_all add: orderlyModule_def)
  show ?case
  proof (cases "F = []")
    case True
    with Cons.prems(1) a obtain M1 where r: "RunLICMBasic M (st, lg) = Inr (M1, st', lg')"
      and M': "M' = (F, LI) # M1"
      by (cases "RunLICMBasic M (st, lg)") auto
    from Cons.IH [OF r om] M' True quietLoops_empty(2) [of LI] show ?thesis
      by (simp add: quietModule_def)
  next
    case False
    with Cons.prems(1) a obtain F1 st1 lg1 M1
      where o: "OptimizeSubLoops LI (F, st, lg) = Inr (F1, st1, lg1)"
        and r: "RunLICMBasic M (st1, lg1) = Inr (M1, st', lg')"
        and M': "M' = (F1, LI) # M1"
      by (cases "OptimizeSubLoops LI (F, st, lg)"; cases "RunLICMBasic M (snd (projr (OptimizeSubLoops LI (F, st, lg))))")
         auto
    from loops_settle(2) [OF ol wf df o] have "wfFunc F1" "settledAll LI F1" by simp_all
    then have "quietLoops LI F1" by (rule settled_quiet(2))
    with Cons.IH [OF r om] M' show ?thesis by (simp add: quietModule_def)
  qed
qed

section \<open>The claims\<close>

text \<open>
  C1, as the code has it. Take a loop with preheader \<open>PH\<close>, outside the loop and ending
  in a terminator, in a well-formed function, and let \<open>f\<close> be the placement that the
  visit of its sub-loops leaves. For every non-volatile load of a global variable \<open>g\<close>
  in the blocks of the loop, the visit of the loop returns, and the load is in the
  preheader afterwards if and only if no store in the blocks of the loop writes to \<open>g\<close>
  itself or to an address that is neither a local allocation nor a global variable.
  A store through an unresolved pointer therefore blocks the hoist; a store to another
  global variable or to a local allocation does not.
\<close>

theorem C1_global_load_hoist:
  assumes "wfFunc f0" and "getTerminator f0 PH = Some dst" and "PH \<notin> set bbs"
    and "OptimizeSubLoops subs (f0, st0\<lparr>NumLoops := NumLoops st0 + 1\<rparr>, lg0) = Inr (f, st, lg)"
    and "i \<in> set (loopInsts (Loop (Some PH) bbs subs) f)"
    and "kind i = LoadInst (GlobalVariable g)" and "\<not> isVolatile i"
  shows "\<exists>f' st' lg'.
           OptimizeLoop2 (Loop (Some PH) bbs subs) (f0, st0, lg0) = Inr (f', st', lg') \<and>
           (getParent f' (addr i) = Some PH \<longleftrightarrow>
              \<not> list_ex (blocksLoad f (GlobalVariable g)) (loopInsts (Loop (Some PH) bbs subs) f))"
proof -
  let ?L = "Loop (Some PH) bbs subs"
  have wf: "wfFunc f" using assms(4,1) by (rule OptimizeSubLoops_wfFunc)
  have t: "getTerminator f PH = Some dst"
    using OptimizeSubLoops_keepsTerminators [OF assms(4)] assms(2) by (simp add: keepsTerminators_def)
  have dec: "\<forall>b0 \<in> set (loopBlocks ?L). decided ?L f i b0
      (\<not> list_ex (blocksLoad f (GlobalVariable g)) (loopInsts ?L f))"
    using decided_load [OF assms(6), of ?L f] assms(7) by simp
  from ownPass_fate [of ?L PH f dst i _ st lg, OF _ _ wf t assms(5) dec] assms(3)
  obtain f' st' lg' where "forBlocks ?L PH bbs (f, st, lg) = Inr (f', st', lg')"
    "getParent f' (addr i) = Some PH \<longleftrightarrow>
       \<not> list_ex (blocksLoad f (GlobalVariable g)) (loopInsts ?L f)"
    by auto
  with assms(4) show ?thesis by (auto simp: Let_def)
qed

theorem C1_global_load_hoist_witness:
  "wfFunc exA \<and> getTerminator exA 0 = Some (mkInst 100 (TermInst [Label 1])) \<and>
   mkInst 10 (LoadInst (GlobalVariable ''g'')) \<in> set (loopInsts loopA exA) \<and>
   \<not> isVolatile (mkInst 10 (LoadInst (GlobalVariable ''g''))) \<and>
   OptimizeLoop2 loopA (exA, noStats, []) = Inr (exA_once, statsA, logA) \<and>
   getParent exA_once 10 = Some 0 \<and>
   \<not> list_ex (blocksLoad exA (GlobalVariable ''g'')) (loopInsts loopA exA)"
proof -
  let ?i = "mkInst 10 (LoadInst (GlobalVariable ''g''))"
  have a1: "wfFunc exA" by code_simp
  have a2: "getTerminator exA 0 = Some (mkInst 100 (TermInst [Label 1]))" by code_simp
  have a3: "(0::nat) \<notin> set [1]" by simp
  have a4: "OptimizeSubLoops [] (exA, noStats\<lparr>NumLoops := NumLoops noStats + 1\<rparr>, [])
              = Inr (exA, noStats\<lparr>NumLoops := NumLoops noStats + 1\<rparr>, [])"
    by simp
  have a5: "?i \<in> set (loopInsts (Loop (Some 0) [1] []) exA)" by code_simp
  have a6: "kind ?i = LoadInst (GlobalVariable ''g'')" and a7: "\<not> isVolatile ?i"
    by (simp_all add: mkInst_def)
  have r: "OptimizeLoop2 (Loop (Some 0) [1] []) (exA, noStats, []) = Inr (exA_once, statsA, logA)"
    by code_simp
  have p: "getParent exA_once 10 = Some 0" by code_simp
  have ad: "addr ?i = 10" by (simp add: mkInst_def)
  from C1_global_load_hoist [OF a1 a2 a3 a4 a5 a6 a7] r p ad
  have "\<not> list_ex (blocksLoad exA (GlobalVariable ''g'')) (loopInsts (Loop (Some 0) [1] []) exA)"
    by simp
  with a1 a2 a5 a7 r p show ?thesis by (simp add: loopA_def)
qed

text \<open>
  C1 as stated fails on \<open>exB\<close>: no store of the loop writes to the global \<open>g\<close> (the only
  store writes through the pointer argument), and yet the run relocates nothing: the
  load of \<open>g\<close> is still in block 1.
\<close>

theorem C1_counterexample:
  "\<not> list_ex (storesTo (GlobalVariable ''g'')) (loopInsts loopA exB) \<and>
   LoopInvariantCodeMotion [(exB, [loopA])] noStats
     = Inr ([(exB, [loopA])], noStats\<lparr>NumLoops := 1\<rparr>, [])"
  by code_simp

text \<open>
  C2, evaluated on \<open>exE\<close>. The outer loop has no preheader and the inner loop has one.
  Run on the forest (the outer loop with its sub-loop), the pass returns at the missing
  preheader before it reaches the sub-loops: one loop is counted, nothing is relocated.
  Run on the inner loop alone, it hoists the add into block 1.
\<close>

theorem C2_subloops_of_skipped_loop:
  "LoopInvariantCodeMotion [(exE, [outerE])] noStats
     = Inr ([(exE, [outerE])], noStats\<lparr>NumLoops := 1, LICMNoPreheader := 1\<rparr>, []) \<and>
   LoopInvariantCodeMotion [(exE, [innerE])] noStats
     = Inr ([(exE_inner, [innerE])], noStats\<lparr>NumLoops := 1, LICMBasic := 1, NumLoopsNoLoad := 1\<rparr>,
            [\<lparr>moved = specInst 20 (OtherInst [Constant 1, Constant 2]), outOf = innerE,
               placement = exE\<rparr>])"
  by code_simp







text \<open>
  C5, as the code has it. Take a loop with preheader \<open>PH\<close>, outside the loop and ending
  in the terminator \<open>dst\<close>, in a well-formed function, and let \<open>f\<close> be the placement
  that the visit of its sub-loops leaves. For every instruction in the blocks of the loop
  that is neither a load nor a store and whose operands are all invariant at \<open>f\<close>, the
  visit of the loop returns, and the instruction is in the preheader afterwards exactly
  when \<^verbatim>\<open>makeLoopInvariant\<close> accepts it: it is safe to speculate, does not read memory
  and is not an exception-handling pad. The preheader still ends in \<open>dst\<close>, and the
  counter of ordinary hoists has grown by the number of relocations of instructions other
  than loads. A terminator or a call that is not speculatable stays in the loop.
\<close>

theorem C5_ordinary_hoist:
  assumes "wfFunc f0" and "getTerminator f0 PH = Some dst" and "PH \<notin> set bbs"
    and "OptimizeSubLoops subs (f0, st0\<lparr>NumLoops := NumLoops st0 + 1\<rparr>, []) = Inr (f, st, lg)"
    and "i \<in> set (loopInsts (Loop (Some PH) bbs subs) f)"
    and "NotALoadOrStore i" and "AreAllOperandsLoopInvaraint (Loop (Some PH) bbs subs) f i"
  shows "\<exists>f' st' lg'.
           OptimizeLoop2 (Loop (Some PH) bbs subs) (f0, st0, []) = Inr (f', st', lg') \<and>
           (getParent f' (addr i) = Some PH \<longleftrightarrow>
              isSafeToSpeculativelyExecute i \<and> \<not> mayReadFromMemory i \<and> \<not> isEHPad i) \<and>
           getTerminator f' PH = Some dst \<and>
           LICMBasic st' = LICMBasic st0 + of_nat (basicRelocated lg')"
proof -
  let ?L = "Loop (Some PH) bbs subs"
  have wf: "wfFunc f" using assms(4,1) by (rule OptimizeSubLoops_wfFunc)
  have t: "getTerminator f PH = Some dst"
    using OptimizeSubLoops_keepsTerminators [OF assms(4)] assms(2) by (simp add: keepsTerminators_def)
  have dec: "\<forall>b0 \<in> set (loopBlocks ?L). decided ?L f i b0
      (isSafeToSpeculativelyExecute i \<and> \<not> mayReadFromMemory i \<and> \<not> isEHPad i)"
    using decided_ordinary [OF assms(6,7)] by blast
  from ownPass_fate [of ?L PH f dst i _ st lg, OF _ _ wf t assms(5) dec] assms(3)
  obtain f' st' lg' where run: "forBlocks ?L PH bbs (f, st, lg) = Inr (f', st', lg')"
    and fate: "getParent f' (addr i) = Some PH \<longleftrightarrow>
       isSafeToSpeculativelyExecute i \<and> \<not> mayReadFromMemory i \<and> \<not> isEHPad i"
    and t': "getTerminator f' PH = Some dst"
    by auto
  from run assms(4) have o: "OptimizeLoop2 ?L (f0, st0, []) = Inr (f', st', lg')"
    by (auto simp: Let_def)
  have "counted st0 st0 []" by (simp add: counted_def loadsRelocated_def basicRelocated_def)
  with o have "counted st0 st' lg'" by (rule OptimizeLoop2_counted)
  then have "LICMBasic st' = LICMBasic st0 + of_nat (basicRelocated lg')" by (simp add: counted_def)
  with o fate t' show ?thesis by blast
qed

theorem C5_ordinary_hoist_witness:
  "wfFunc exG \<and> getTerminator exG 0 = Some (mkInst 100 (TermInst [Label 1])) \<and>
   specInst 31 (OtherInst [Argument 0, Constant 0]) \<in> set (loopInsts loopG exG) \<and>
   NotALoadOrStore (specInst 31 (OtherInst [Argument 0, Constant 0])) \<and>
   AreAllOperandsLoopInvaraint loopG exG (specInst 31 (OtherInst [Argument 0, Constant 0])) \<and>
   OptimizeLoop2 loopG (exG, noStats, []) = Inr (exG_once, statsG, logG) \<and>
   getParent exG_once 31 = Some 0 \<and>
   isSafeToSpeculativelyExecute (specInst 31 (OtherInst [Argument 0, Constant 0])) \<and>
   getTerminator exG_once 0 = Some (mkInst 100 (TermInst [Label 1])) \<and>
   LICMBasic statsG = 1 \<and> basicRelocated logG = 1"
proof -
  let ?i = "specInst 31 (OtherInst [Argument 0, Constant 0])"
  have a1: "wfFunc exG" by code_simp
  have a2: "getTerminator exG 0 = Some (mkInst 100 (TermInst [Label 1]))" by code_simp
  have a3: "(0::nat) \<notin> set [1, 2]" by simp
  have a4: "OptimizeSubLoops [] (exG, noStats\<lparr>NumLoops := NumLoops noStats + 1\<rparr>, [])
              = Inr (exG, noStats\<lparr>NumLoops := NumLoops noStats + 1\<rparr>, [])"
    by simp
  have a5: "?i \<in> set (loopInsts (Loop (Some 0) [1, 2] []) exG)" by code_simp
  have a6: "NotALoadOrStore ?i" by (simp add: NotALoadOrStore_def specInst_def)
  have a7: "AreAllOperandsLoopInvaraint (Loop (Some 0) [1, 2] []) exG ?i"
    by (simp add: AreAllOperandsLoopInvaraint_def operands_def specInst_def)
  have r: "OptimizeLoop2 (Loop (Some 0) [1, 2] []) (exG, noStats, []) = Inr (exG_once, statsG, logG)"
    by code_simp
  have ad: "addr ?i = 31" by (simp add: specInst_def)
  have b: "basicRelocated logG = 1" by code_simp
  have n: "LICMBasic noStats = 0" by (simp add: noStats_def)
  from C5_ordinary_hoist [OF a1 a2 a3 a4 a5 a6 a7] r ad b n
  have "getParent exG_once 31 = Some 0 \<and>
        isSafeToSpeculativelyExecute ?i \<and>
        getTerminator exG_once 0 = Some (mkInst 100 (TermInst [Label 1])) \<and>
        LICMBasic statsG = 1"
    by (simp add: specInst_def)
  with a1 a2 a5 a6 a7 r b show ?thesis by (simp add: loopG_def)
qed

text \<open>
  C5 as stated fails on \<open>exG\<close>: the branch that closes the latch (instruction 33) and
  the call (instruction 30) are in the loop, are neither loads nor stores and have only
  invariant operands, and the run leaves both in block 2; only the compare is counted.
\<close>

theorem C5_counterexample:
  "contains loopG exG (addr (mkInst 33 (TermInst [Label 1]))) \<and>
   NotALoadOrStore (mkInst 33 (TermInst [Label 1])) \<and>
   AreAllOperandsLoopInvaraint loopG exG (mkInst 33 (TermInst [Label 1])) \<and>
   contains loopG exG (addr (mkInst 30 (CallInst []))) \<and>
   NotALoadOrStore (mkInst 30 (CallInst [])) \<and>
   AreAllOperandsLoopInvaraint loopG exG (mkInst 30 (CallInst [])) \<and>
   placementOf (LoopInvariantCodeMotion [(exG, [loopG])] noStats) = Inr [exG_once] \<and>
   instsOf exG_once 2 = [mkInst 30 (CallInst []), mkInst 33 (TermInst [Label 1])]"
  by code_simp

text \<open>
  C6. A run leaves every volatile load where it is: in every block of every function,
  the volatile loads after the run are those before it, in the same order.
\<close>

theorem C6_volatile_loads_stay:
  assumes "LoopInvariantCodeMotion M st = Inr (M', st', lg)"
  shows "map (\<lambda>(F, LI). onlyInsts volatileLoad F) M' = map (\<lambda>(F, LI). onlyInsts volatileLoad F) M"
  using assms unfolding LoopInvariantCodeMotion_eq
  by (rule RunLICMBasic_onlyInsts) (rule volatileLoad_not_hoistable)

theorem C6_volatile_loads_stay_witness:
  "LoopInvariantCodeMotion [(exC, [loopA])] noStats = Inr ([(exC_once, [loopA])], statsC, logC) \<and>
   onlyInsts volatileLoad exC_once = onlyInsts volatileLoad exC \<and>
   onlyInsts volatileLoad exC =
     [(0, []), (1, [volatileInst 10 (LoadInst (GlobalVariable ''g''))]), (2, [])]"
proof -
  have "onlyInsts volatileLoad exC =
     [(0, []), (1, [volatileInst 10 (LoadInst (GlobalVariable ''g''))]), (2, [])]"
    by code_simp
  with run_exC C6_volatile_loads_stay [OF run_exC] show ?thesis by simp
qed

text \<open>
  C7. A run leaves every load whose address is not a global variable where it is: in
  every block of every function, those loads after the run are those before it, in the
  same order, whatever stores the loops hold.
\<close>

theorem C7_non_global_loads_stay:
  assumes "LoopInvariantCodeMotion M st = Inr (M', st', lg)"
  shows "map (\<lambda>(F, LI). onlyInsts nonGlobalLoad F) M' = map (\<lambda>(F, LI). onlyInsts nonGlobalLoad F) M"
  using assms unfolding LoopInvariantCodeMotion_eq
  by (rule RunLICMBasic_onlyInsts) (rule nonGlobalLoad_not_hoistable)

theorem C7_non_global_loads_stay_witness:
  "LoopInvariantCodeMotion [(exC, [loopA])] noStats = Inr ([(exC_once, [loopA])], statsC, logC) \<and>
   onlyInsts nonGlobalLoad exC_once = onlyInsts nonGlobalLoad exC \<and>
   onlyInsts nonGlobalLoad exC = [(0, []), (1, [mkInst 11 (LoadInst (Argument 0))]), (2, [])]"
proof -
  have "onlyInsts nonGlobalLoad exC = [(0, []), (1, [mkInst 11 (LoadInst (Argument 0))]), (2, [])]"
    by code_simp
  with run_exC C7_non_global_loads_stay [OF run_exC] show ?thesis by simp
qed




text \<open>
  C9 as stated fails on \<open>exM\<close>: the add of the loop carries a \<^verbatim>\<open>!fpmath\<close> attachment;
  the run hoists it into the preheader through \<^verbatim>\<open>makeLoopInvariant\<close>, which drops the
  attachment, so more than the block and the position of the relocated instruction has
  changed.
\<close>

theorem C9_counterexample:
  "LoopInvariantCodeMotion [(exM, [loopA])] noStats = Inr ([(exM_once, [loopA])], statsM, logM) \<and>
   instAt exM 14 = Some (fpAdd [(''fpmath'', 7)]) \<and>
   instAt exM_once 14 = Some (fpAdd []) \<and>
   fpAdd [] \<noteq> fpAdd [(''fpmath'', 7)] \<and>
   fpAdd [(''fpmath'', 7)] \<notin> set (allInsts exM_once)"
  by code_simp

text \<open>
  C9, as the code has it. A run neither creates nor destroys a block or an instruction:
  every function whose instructions have distinct addresses has, after the run, the same
  blocks in the same order, the same loop forest, and the same instructions up to their
  metadata (each with its address, kind, operands and flags). The loads and the stores
  are the same with their metadata; the instructions that the run did not relocate are
  in the blocks they were in, in the order they were in, unchanged; and every
  instruction other than a load that the run relocated stands in the module without
  metadata, which \<^verbatim>\<open>makeLoopInvariant\<close> dropped.
\<close>

theorem C9_instructions_preserved:
  assumes "LoopInvariantCodeMotion M st = Inr (M', st', lg)"
    and "list_all (\<lambda>(F, LI). distinct (map addr (allInsts F))) M"
  shows "list_all2 (\<lambda>(F, LI) (F', LI'). LI' = LI \<and> sameInsts F F' \<and>
            onlyInsts (neverMoved lg) F' = onlyInsts (neverMoved lg) F) M M' \<and>
         list_all (\<lambda>r. NotALoadOrStore (moved r) \<longrightarrow>
            list_ex (\<lambda>(F', LI). clearMetadata (moved r) \<in> set (allInsts F')) M') lg"
proof -
  have "True \<and> list_all2 (\<lambda>(F, LI) (F', LI'). LI' = LI \<and>
          (distinct (map addr (allInsts F)) \<longrightarrow> sameInsts F F')) M M'"
  proof (rule RunLICMBasic_lift [where \<Psi> = "\<lambda>_ _. True",
        OF _ _ assms(1) [unfolded LoopInvariantCodeMotion_eq]])
    fix F LI st lg F' st' lg'
    assume "OptimizeSubLoops LI (F, st, lg) = Inr (F', st', lg')"
    then show "True \<and> (distinct (map addr (allInsts F)) \<longrightarrow> sameInsts F F')"
      using OptimizeSubLoops_sameInsts by blast
  qed (simp_all add: sameInsts_def)
  then have a: "list_all2 (\<lambda>(F, LI) (F', LI'). LI' = LI \<and>
          (distinct (map addr (allInsts F)) \<longrightarrow> sameInsts F F')) M M'"
    by simp
  have b: "list_all2 (\<lambda>(F, LI) (F', LI'). untouched lg F F') M M'"
    using RunLICMBasic_untouched [OF assms(1) [unfolded LoopInvariantCodeMotion_eq]] by simp
  from a b assms(2)
  have 1: "list_all2 (\<lambda>(F, LI) (F', LI'). LI' = LI \<and> sameInsts F F' \<and>
            onlyInsts (neverMoved lg) F' = onlyInsts (neverMoved lg) F) M M'"
    by (induction M M' rule: list_all2_induct) (auto dest: untouchedD)
  have 2: "list_all (\<lambda>r. NotALoadOrStore (moved r) \<longrightarrow>
            list_ex (\<lambda>(F', LI). clearMetadata (moved r) \<in> set (allInsts F')) M') lg"
    using RunLICMBasic_cleared [OF assms(1) [unfolded LoopInvariantCodeMotion_eq]]
    by (auto simp: list_all_iff list_ex_iff)
  from 1 2 show ?thesis by simp
qed

theorem C9_instructions_preserved_witness:
  "LoopInvariantCodeMotion [(exM, [loopA])] noStats = Inr ([(exM_once, [loopA])], statsM, logM) \<and>
   distinct (map addr (allInsts exM)) \<and>
   sameInsts exM exM_once \<and>
   onlyInsts (neverMoved logM) exM_once = onlyInsts (neverMoved logM) exM \<and>
   onlyInsts (neverMoved logM) exM =
     [(0, [mkInst 100 (TermInst [Label 1])]),
      (1, [mkInst 10 (LoadInst (Argument 0)),
           mkInst 12 (TermInst [Argument 1, Label 1, Label 2])]),
      (2, [mkInst 13 (TermInst [])])] \<and>
   clearMetadata (fpAdd [(''fpmath'', 7)]) \<in> set (allInsts exM_once)"
proof -
  have r: "LoopInvariantCodeMotion [(exM, [loopA])] noStats = Inr ([(exM_once, [loopA])], statsM, logM)"
    by code_simp
  have d: "list_all (\<lambda>(F, LI). distinct (map addr (allInsts F))) [(exM, [loopA])]"
    by code_simp
  have e: "onlyInsts (neverMoved logM) exM =
     [(0, [mkInst 100 (TermInst [Label 1])]),
      (1, [mkInst 10 (LoadInst (Argument 0)),
           mkInst 12 (TermInst [Argument 1, Label 1, Label 2])]),
      (2, [mkInst 13 (TermInst [])])]"
    by code_simp
  have n: "NotALoadOrStore (fpAdd [(''fpmath'', 7)])" by code_simp
  from C9_instructions_preserved [OF r d] d r e n show ?thesis
    by (simp add: logM_def)
qed

text \<open>
  C10. After a run the counter of hoisted loads is its value before the run plus the
  number of relocations of loads the run made (in the 32-bit arithmetic of the counter):
  the increment and the decrement at the entry of the pass cancel.
\<close>

theorem C10_load_counter:
  assumes "LoopInvariantCodeMotion M st = Inr (M', st', lg)"
  shows "LICMLoadHoist st' = LICMLoadHoist st + of_nat (loadsRelocated lg)"
proof -
  have "counted st st []" by (simp add: counted_def loadsRelocated_def basicRelocated_def)
  with assms have "counted st st' lg"
    unfolding LoopInvariantCodeMotion_eq by (rule RunLICMBasic_counted)
  then show ?thesis by (simp add: counted_def)
qed

theorem C10_load_counter_witness:
  "LoopInvariantCodeMotion [(exA, [loopA])] noStats = Inr ([(exA_once, [loopA])], statsA, logA) \<and>
   loadsRelocated logA = 1 \<and> LICMLoadHoist statsA = 1"
proof -
  have "loadsRelocated logA = 1" by code_simp
  moreover have "LICMLoadHoist noStats = 0" by (simp add: noStats_def)
  ultimately show ?thesis using C10_load_counter [OF run_exA] run_exA by simp
qed


end
